theory Spec2Isabelle
  imports Complex_Main "HOL-Library.AList" "HOL-Library.Sublist"
begin

section \<open>LinguaLens detection pipeline (the aspect-scoring / class-lock variant)\<close>

text \<open>
  The module \<^verbatim>\<open>DetectionPipeline\<close> is embedded function by function.
  JavaScript numbers are modelled as exact reals: rounding, NaN and the infinities of
  IEEE doubles are outside the model. A bounding box is the array \<^verbatim>\<open>[x, y, w, h]\<close>.
  A class label is a label of the detector's taxonomy, so that a lookup in one of the
  tables below finds an entry of the table or nothing.
\<close>

subsection \<open>Configuration\<close>

definition CONFIRM_FRAMES :: int where "CONFIRM_FRAMES = 8"
definition NMS_THRESHOLD :: real where "NMS_THRESHOLD = 0.35"
definition CONFUSION_THRESHOLD :: real where "CONFUSION_THRESHOLD = 0.3"
definition DECAY_RATE :: int where "DECAY_RATE = 2"
definition CLASS_LOCK_FRAMES :: int where "CLASS_LOCK_FRAMES = 12"

definition CONFUSE_GROUPS :: "string list list" where
  "CONFUSE_GROUPS =
    [[''cell phone'', ''remote'', ''mouse'', ''hair drier''],
     [''cup'', ''bowl'', ''vase'', ''bottle''],
     [''knife'', ''scissors'', ''fork''],
     [''couch'', ''bed''],
     [''skateboard'', ''surfboard''],
     [''laptop'', ''tv'', ''book'', ''keyboard''],
     [''backpack'', ''handbag'', ''suitcase''],
     [''car'', ''truck'', ''bus''],
     [''dining table'', ''desk''],
     [''potted plant'', ''broccoli'']]"

text \<open>
  \<^verbatim>\<open>CONFUSE_GROUPS.forEach(g => g.forEach(c => confuseMap[c] = g))\<close>: a later group
  would overwrite an earlier one. The source compares groups by reference; the groups of
  the table are pairwise different lists, so equality of the lists is the same test.
\<close>

definition confuseMap :: "string \<rightharpoonup> string list" where
  "confuseMap = fold (\<lambda>g m. fold (\<lambda>c m'. m'(c \<mapsto> g)) g m) CONFUSE_GROUPS Map.empty"

record hint =
  hint_min :: real
  hint_max :: real
  hint_weight :: real

definition ASPECT_HINTS :: "(string \<times> hint) list" where
  "ASPECT_HINTS =
    [(''cell phone'', \<lparr>hint_min = 1.3, hint_max = 2.8, hint_weight = 0.25\<rparr>),
     (''remote'', \<lparr>hint_min = 2.2, hint_max = 6.0, hint_weight = 0.25\<rparr>),
     (''mouse'', \<lparr>hint_min = 0.5, hint_max = 1.3, hint_weight = 0.20\<rparr>),
     (''bottle'', \<lparr>hint_min = 1.8, hint_max = 5.0, hint_weight = 0.25\<rparr>),
     (''cup'', \<lparr>hint_min = 0.6, hint_max = 1.6, hint_weight = 0.20\<rparr>),
     (''bowl'', \<lparr>hint_min = 0.3, hint_max = 0.9, hint_weight = 0.20\<rparr>),
     (''vase'', \<lparr>hint_min = 1.2, hint_max = 3.5, hint_weight = 0.15\<rparr>),
     (''laptop'', \<lparr>hint_min = 0.5, hint_max = 1.1, hint_weight = 0.20\<rparr>),
     (''tv'', \<lparr>hint_min = 0.4, hint_max = 0.9, hint_weight = 0.20\<rparr>),
     (''book'', \<lparr>hint_min = 0.8, hint_max = 1.8, hint_weight = 0.10\<rparr>),
     (''knife'', \<lparr>hint_min = 2.0, hint_max = 8.0, hint_weight = 0.20\<rparr>),
     (''scissors'', \<lparr>hint_min = 0.8, hint_max = 2.5, hint_weight = 0.15\<rparr>),
     (''keyboard'', \<lparr>hint_min = 0.15, hint_max = 0.55, hint_weight = 0.20\<rparr>),
     (''hair drier'', \<lparr>hint_min = 0.6, hint_max = 1.5, hint_weight = 0.15\<rparr>),
     (''fork'', \<lparr>hint_min = 3.0, hint_max = 10.0, hint_weight = 0.20\<rparr>),
     (''spoon'', \<lparr>hint_min = 2.5, hint_max = 8.0, hint_weight = 0.15\<rparr>)]"

subsection \<open>Boxes\<close>

type_synonym bbox = "real \<times> real \<times> real \<times> real"

fun iou :: "bbox \<Rightarrow> bbox \<Rightarrow> real" where
  "iou (a0, a1, a2, a3) (b0, b1, b2, b3) =
     (let x1 = max a0 b0; y1 = max a1 b1;
          x2 = min (a0 + a2) (b0 + b2); y2 = min (a1 + a3) (b1 + b3)
      in if x2 \<le> x1 \<or> y2 \<le> y1 then 0
         else (let inter = (x2 - x1) * (y2 - y1)
               in inter / (a2 * a3 + b2 * b3 - inter)))"

fun aspectScore :: "string \<Rightarrow> bbox \<Rightarrow> real" where
  "aspectScore cls (x, y, w, h) =
     (case map_of ASPECT_HINTS cls of
        None \<Rightarrow> 1.0
      | Some hint \<Rightarrow>
          if w = 0 then 0.5
          else (let aspect = h / w
                in if aspect \<ge> hint_min hint \<and> aspect \<le> hint_max hint then 1.0
                   else (let dist = (if aspect < hint_min hint
                                     then (hint_min hint - aspect) / hint_min hint
                                     else (aspect - hint_max hint) / hint_max hint)
                         in max 0.3 (1.0 - dist * hint_weight hint * 3))))"

subsection \<open>Detections and the static size tables\<close>

text \<open>
  A raw detection is \<^verbatim>\<open>{class, bbox, score}\<close>; step 1 of \<^verbatim>\<open>filter\<close> adds
  \<^verbatim>\<open>_origScore\<close> and \<^verbatim>\<open>_aspectScore\<close> and overwrites \<^verbatim>\<open>score\<close>.
\<close>

record raw_pred =
  r_class :: string
  r_bbox :: bbox
  r_score :: real

record pred =
  p_class :: string
  p_bbox :: bbox
  p_score :: real
  p_origScore :: real
  p_aspectScore :: real

text \<open>
  \<^verbatim>\<open>DICT\<close> and \<^verbatim>\<open>SIZE_RANGES\<close> are globals of the class dictionary, which is not part of
  the module: they are parameters here. \<open>None\<close> is a falsy (missing) table, entry or
  property; of a dictionary entry only \<^verbatim>\<open>size\<close> is read.
\<close>

record dict_entry =
  entry_size :: "string option"

record size_range =
  range_min :: real
  range_max :: real

record tables =
  DICT :: "(string \<rightharpoonup> dict_entry) option"
  SIZE_RANGES :: "(string \<rightharpoonup> size_range) option"

text \<open>
  \<^verbatim>\<open>boxArea / videoArea\<close> with \<^verbatim>\<open>videoArea = 0\<close> is an infinity or NaN in JavaScript, and
  both comparisons with a range then give \<^verbatim>\<open>false\<close>; that case is written out.
\<close>

definition validateSize :: "tables \<Rightarrow> pred \<Rightarrow> real \<Rightarrow> bool" where
  "validateSize T pred videoArea =
     (case DICT T of None \<Rightarrow> True | Some dict \<Rightarrow>
      case SIZE_RANGES T of None \<Rightarrow> True | Some ranges \<Rightarrow>
      case dict (p_class pred) of None \<Rightarrow> True | Some entry \<Rightarrow>
      case entry_size entry of None \<Rightarrow> True | Some sz \<Rightarrow>
        if sz = [] then True
        else (case p_bbox pred of (x, y, w, h) \<Rightarrow>
          let boxArea = w * h in
          case ranges sz of None \<Rightarrow> True | Some rng \<Rightarrow>
            if videoArea = 0 then False
            else (let ratio = boxArea / videoArea
                  in ratio \<ge> range_min rng * 0.5 \<and> ratio \<le> range_max rng * 2)))"

subsection \<open>The frame filter pipeline: steps 1 to 6 of \<^verbatim>\<open>filter\<close>\<close>

definition score_pred :: "raw_pred \<Rightarrow> pred" where
  "score_pred p =
     (let aScore = aspectScore (r_class p) (r_bbox p)
      in \<lparr>p_class = r_class p, p_bbox = r_bbox p, p_score = r_score p * aScore,
          p_origScore = r_score p, p_aspectScore = aScore\<rparr>)"

text \<open>
  \<^verbatim>\<open>preds.sort((a, b) => b.score - a.score)\<close> is a stable sort, descending by score;
  so is \<open>sort_key\<close> on the negated score.
\<close>

definition sort_preds :: "pred list \<Rightarrow> pred list" where
  "sort_preds preds = sort_key (\<lambda>p. - p_score p) preds"

definition dominated_nms :: "pred \<Rightarrow> pred list \<Rightarrow> bool" where
  "dominated_nms p kept = list_ex (\<lambda>k. iou (p_bbox p) (p_bbox k) > NMS_THRESHOLD) kept"

fun nms :: "pred list \<Rightarrow> pred list \<Rightarrow> pred list" where
  "nms kept [] = kept"
| "nms kept (p # ps) = nms (if dominated_nms p kept then kept else kept @ [p]) ps"

text \<open>
  The inner loop of step 6 stops at the first resolved entry of the same group that
  overlaps; \<open>find_conflict\<close> returns its position. The source then takes
  \<^verbatim>\<open>resolved.indexOf(r)\<close>, the position of that object.
\<close>

fun find_conflict :: "pred \<Rightarrow> string list \<Rightarrow> pred list \<Rightarrow> nat \<Rightarrow> nat option" where
  "find_conflict p grp [] i = None"
| "find_conflict p grp (r # rs) i =
     (if confuseMap (p_class r) = Some grp \<and> iou (p_bbox p) (p_bbox r) > CONFUSION_THRESHOLD
      then Some i else find_conflict p grp rs (Suc i))"

definition fit :: "pred \<Rightarrow> real" where
  "fit p = (if p_aspectScore p = 0 then 1.0 else p_aspectScore p) * p_origScore p"

fun resolve :: "pred list \<Rightarrow> pred list \<Rightarrow> pred list" where
  "resolve resolved [] = resolved"
| "resolve resolved (p # ps) =
     (case confuseMap (p_class p) of
        None \<Rightarrow> resolve (resolved @ [p]) ps
      | Some grp \<Rightarrow>
          (case find_conflict p grp resolved 0 of
             None \<Rightarrow> resolve (resolved @ [p]) ps
           | Some idx \<Rightarrow>
               resolve (if fit p > fit (resolved ! idx) then resolved[idx := p] else resolved) ps))"

definition pipeline :: "tables \<Rightarrow> raw_pred list \<Rightarrow> real \<Rightarrow> real \<Rightarrow> pred list" where
  "pipeline T rawPreds videoWidth videoHeight =
     (let videoArea = videoWidth * videoHeight;
          preds = map score_pred rawPreds;
          preds = sort_preds preds;
          preds = filter (\<lambda>p. validateSize T p videoArea) preds;
          preds = filter (\<lambda>p. p_score p \<ge> 0.45) preds;
          kept = nms [] preds
      in resolve [] kept)"

subsection \<open>The candidate tracker: step 7 of \<^verbatim>\<open>filter\<close>, and \<^verbatim>\<open>reset\<close>\<close>

text \<open>
  The object \<^verbatim>\<open>candidates\<close> is an association list in insertion order, the order in
  which \<^verbatim>\<open>for (const key in candidates)\<close> visits its keys. A key is the string
  \<^verbatim>\<open>class_round(x/40)_round(y/40)_Date.now()\<close>; it is kept as the tuple of its four parts
  (the three numbers hold no underscore, so the string determines the tuple).
  \<^verbatim>\<open>Date.now()\<close> is an input: \<open>clock i\<close> is what it returns while the \<open>i\<close>-th resolved
  detection is processed.
\<close>

record candidate =
  cls :: string
  score :: real
  frames :: int
  bbox :: bbox

type_synonym key = "string \<times> int \<times> int \<times> int"
type_synonym candidates = "(key \<times> candidate) list"

record loop_state =
  cands :: candidates
  nowKeys :: "key set"
  confirmed :: "pred list"

fun scan :: "pred \<Rightarrow> candidates \<Rightarrow> key option \<Rightarrow> key option \<times> key option" where
  "scan p [] matchedKeyByLocation = (None, matchedKeyByLocation)"
| "scan p ((k, c) # rest) matchedKeyByLocation =
     (if cls c = p_class p \<and> iou (bbox c) (p_bbox p) > 0.25 then (Some k, matchedKeyByLocation)
      else scan p rest
             (if iou (bbox c) (p_bbox p) > 0.4 \<and> matchedKeyByLocation = None then Some k
              else matchedKeyByLocation))"

definition fresh_key :: "pred \<Rightarrow> int \<Rightarrow> key" where
  "fresh_key p now =
     (case p_bbox p of (x, y, w, h) \<Rightarrow> (p_class p, round (x / 40), round (y / 40), now))"

text \<open>
  The class lock: \<open>Some\<close> when the \<^verbatim>\<open>continue\<close> of the source is reached.
  \<^verbatim>\<open>matchedKeyByLocation\<close> is a key that the scan found in the map, so
  \<^verbatim>\<open>candidates[matchedKeyByLocation]\<close> exists (lemma \<open>scan_keys\<close>).
\<close>

definition class_lock :: "pred \<Rightarrow> key option \<Rightarrow> key option \<Rightarrow> loop_state \<Rightarrow> loop_state option" where
  "class_lock p matchedKey matchedKeyByLocation s =
     (case matchedKeyByLocation of None \<Rightarrow> None | Some loc \<Rightarrow>
      if matchedKey \<noteq> None then None
      else (case map_of (cands s) loc of None \<Rightarrow> None | Some existing \<Rightarrow>
        if frames existing \<ge> CLASS_LOCK_FRAMES then
          (let existingFit = aspectScore (cls existing) (p_bbox p) * score existing;
               newFit = aspectScore (p_class p) (p_bbox p) * p_score p
           in if newFit < existingFit * 1.3 then
                (let existing' = existing\<lparr>bbox := p_bbox p,
                                   score := score existing * 0.7 + p_origScore p * 0.3\<rparr>
                 in Some (s\<lparr>cands := AList.update loc existing' (cands s),
                            nowKeys := insert loc (nowKeys s),
                            confirmed := (if frames existing' \<ge> CONFIRM_FRAMES
                               then confirmed s @ [p\<lparr>p_class := cls existing', p_score := score existing'\<rparr>]
                               else confirmed s)\<rparr>))
              else None)
        else None))"

definition push_confirmed :: "pred \<Rightarrow> key \<Rightarrow> loop_state \<Rightarrow> loop_state" where
  "push_confirmed p rKey s =
     (case map_of (cands s) rKey of
        Some c \<Rightarrow> if frames c \<ge> CONFIRM_FRAMES then s\<lparr>confirmed := confirmed s @ [p]\<rparr> else s
      | None \<Rightarrow> s)"

text \<open>The body of the loop after \<^verbatim>\<open>nowKeys.add(rKey)\<close>.\<close>

definition apply_match :: "pred \<Rightarrow> key option \<Rightarrow> key option \<Rightarrow> key \<Rightarrow> loop_state \<Rightarrow> loop_state" where
  "apply_match p matchedKey matchedKeyByLocation rKey s1 =
     (case map_of (cands s1) rKey of
        None \<Rightarrow>
          (case class_lock p matchedKey matchedKeyByLocation s1 of
             Some s2 \<Rightarrow> s2
           | None \<Rightarrow>
               push_confirmed p rKey
                 (s1\<lparr>cands := AList.update rKey
                       \<lparr>cls = p_class p, score = p_score p, frames = 1, bbox = p_bbox p\<rparr>
                       (cands s1)\<rparr>))
      | Some c \<Rightarrow>
          push_confirmed p rKey
            (s1\<lparr>cands := AList.update rKey
                  (c\<lparr>frames := frames c + 1,
                     score := score c * 0.6 + p_score p * 0.4,
                     bbox := p_bbox p\<rparr>)
                  (cands s1)\<rparr>))"

definition track_one :: "int \<Rightarrow> pred \<Rightarrow> loop_state \<Rightarrow> loop_state" where
  "track_one now p s =
     (case scan p (cands s) None of (matchedKey, matchedKeyByLocation) \<Rightarrow>
      let rKey = (case matchedKey of Some k \<Rightarrow> k | None \<Rightarrow> fresh_key p now)
      in apply_match p matchedKey matchedKeyByLocation rKey
           (s\<lparr>nowKeys := insert rKey (nowKeys s)\<rparr>))"

fun track :: "(nat \<Rightarrow> int) \<Rightarrow> nat \<Rightarrow> pred list \<Rightarrow> loop_state \<Rightarrow> loop_state" where
  "track clock i [] s = s"
| "track clock i (p # ps) s = track clock (Suc i) ps (track_one (clock i) p s)"

fun decay :: "key set \<Rightarrow> candidates \<Rightarrow> candidates" where
  "decay seen [] = []"
| "decay seen ((k, c) # rest) =
     (if k \<in> seen then (k, c) # decay seen rest
      else (let c' = c\<lparr>frames := frames c - DECAY_RATE\<rparr>
            in if frames c' \<le> 0 then decay seen rest else (k, c') # decay seen rest))"

text \<open>
  \<^verbatim>\<open>filter(rawPreds, videoWidth, videoHeight)\<close>, with the tables, the clock and the
  candidate map it reads made arguments; it returns \<^verbatim>\<open>confirmed\<close> and the new map.
\<close>

definition tracked :: "(nat \<Rightarrow> int) \<Rightarrow> candidates \<Rightarrow> pred list \<Rightarrow> loop_state" where
  "tracked clock candidates resolved =
     track clock 0 resolved \<lparr>cands = candidates, nowKeys = {}, confirmed = []\<rparr>"

definition filter_detections ::
  "tables \<Rightarrow> (nat \<Rightarrow> int) \<Rightarrow> candidates \<Rightarrow> raw_pred list \<Rightarrow> real \<Rightarrow> real \<Rightarrow> pred list \<times> candidates" where
  "filter_detections T clock candidates rawPreds videoWidth videoHeight =
     (let resolved = pipeline T rawPreds videoWidth videoHeight;
          s = tracked clock candidates resolved
      in (confirmed s, decay (nowKeys s) (cands s)))"

text \<open>\<^verbatim>\<open>reset\<close> deletes every key in turn.\<close>

definition reset :: "candidates \<Rightarrow> candidates" where
  "reset candidates = fold AList.delete (map fst candidates) candidates"

subsection \<open>A detection without \<^verbatim>\<open>bbox\<close>\<close>



record js_pred =
  jp_class :: string
  jp_bbox :: "bbox option"
  jp_score :: real
  jp_origScore :: real
  jp_aspectScore :: real


definition present :: "pred \<Rightarrow> js_pred" where
  "present p = \<lparr>jp_class = p_class p, jp_bbox = Some (p_bbox p), jp_score = p_score p,
                jp_origScore = p_origScore p, jp_aspectScore = p_aspectScore p\<rparr>"

definition with_bbox :: "js_pred \<Rightarrow> bbox \<Rightarrow> pred" where
  "with_bbox p b = \<lparr>p_class = jp_class p, p_bbox = b, p_score = jp_score p,
                    p_origScore = jp_origScore p, p_aspectScore = jp_aspectScore p\<rparr>"



















subsection \<open>Calls in sequence\<close>

text \<open>
  The states the tracker can be in: the empty map of module load, and what \<^verbatim>\<open>filter\<close> and
  \<^verbatim>\<open>reset\<close> make of a state.
\<close>

inductive reachable :: "tables \<Rightarrow> candidates \<Rightarrow> bool" for T :: tables where
  reach_init: "reachable T []"
| reach_filter: "reachable T st \<Longrightarrow>
     reachable T (snd (filter_detections T clock st rawPreds videoWidth videoHeight))"
| reach_reset: "reachable T st \<Longrightarrow> reachable T (reset st)"

text \<open>The set \<^verbatim>\<open>nowKeys\<close> at the end of the loop of step 7.\<close>

definition seen_keys ::
  "tables \<Rightarrow> (nat \<Rightarrow> int) \<Rightarrow> candidates \<Rightarrow> raw_pred list \<Rightarrow> real \<Rightarrow> real \<Rightarrow> key set" where
  "seen_keys T clock st rawPreds videoWidth videoHeight =
     nowKeys (tracked clock st (pipeline T rawPreds videoWidth videoHeight))"

text \<open>
  The caller (\<^verbatim>\<open>detectLoop\<close>) calls \<^verbatim>\<open>filter\<close> once per frame; \<open>feed\<close> runs a list of
  frames and collects what each call returns.
\<close>

type_synonym frame = "(nat \<Rightarrow> int) \<times> raw_pred list \<times> real \<times> real"

fun feed :: "tables \<Rightarrow> candidates \<Rightarrow> frame list \<Rightarrow> pred list list \<times> candidates" where
  "feed T st [] = ([], st)"
| "feed T st ((clock, rawPreds, videoWidth, videoHeight) # fs) =
     (case filter_detections T clock st rawPreds videoWidth videoHeight of (out, st') \<Rightarrow>
      case feed T st' fs of (outs, st'') \<Rightarrow> (out # outs, st''))"

text \<open>The candidate that tracks detection \<open>p\<close> with streak \<open>n\<close> when \<open>p\<close> is fed unchanged.\<close>

definition tracked_cand :: "pred \<Rightarrow> int \<Rightarrow> candidate" where
  "tracked_cand p n = \<lparr>cls = p_class p, score = p_score p, frames = n, bbox = p_bbox p\<rparr>"

subsection \<open>Concrete inputs\<close>

text \<open>
  A dictionary with a size category for three classes, a raw detection of a cup, the key
  it gets at time 0, and a call of \<^verbatim>\<open>filter\<close> on a frame without detections.
\<close>

definition example_tables :: tables where
  "example_tables =
     \<lparr>DICT = Some [''cup'' \<mapsto> \<lparr>entry_size = Some ''small''\<rparr>,
                   ''bowl'' \<mapsto> \<lparr>entry_size = Some ''small''\<rparr>,
                   ''person'' \<mapsto> \<lparr>entry_size = Some ''large''\<rparr>],
      SIZE_RANGES = Some [''small'' \<mapsto> \<lparr>range_min = 0.002, range_max = 0.2\<rparr>,
                          ''large'' \<mapsto> \<lparr>range_min = 0.05, range_max = 0.9\<rparr>]\<rparr>"

definition cup_det :: raw_pred where
  "cup_det = \<lparr>r_class = ''cup'', r_bbox = (100, 100, 40, 60), r_score = 0.6\<rparr>"

definition cup_pred :: pred where
  "cup_pred = \<lparr>p_class = ''cup'', p_bbox = (100, 100, 40, 60), p_score = 0.6,
               p_origScore = 0.6, p_aspectScore = 1\<rparr>"

definition cup_key :: key where
  "cup_key = (''cup'', 3, 3, 0)"

definition cup_cand :: "int \<Rightarrow> candidate" where
  "cup_cand n = \<lparr>cls = ''cup'', score = 0.6, frames = n, bbox = (100, 100, 40, 60)\<rparr>"

definition idle_call :: "candidates \<Rightarrow> candidates" where
  "idle_call st = snd (filter_detections example_tables (\<lambda>i. 0) st [] 640 480)"

definition cup_call :: "candidates \<Rightarrow> pred list \<times> candidates" where
  "cup_call st = filter_detections example_tables (\<lambda>i. 0) st [cup_det] 640 480"

subsection \<open>Predicates of the claims\<close>

text \<open>
  Two detections respect the NMS threshold; their classes share a confusion group; they
  respect the confusion threshold if they do; and a confirmed detection \<open>c\<close> is what the loop
  pushes for the resolved detection \<open>p\<close>: \<open>p\<close> itself, or \<open>p\<close> with class and score
  overwritten (the class lock).
\<close>

definition nms_ok :: "pred \<Rightarrow> pred \<Rightarrow> bool" where
  "nms_ok a b = (iou (p_bbox a) (p_bbox b) \<le> NMS_THRESHOLD)"

definition same_group :: "pred \<Rightarrow> pred \<Rightarrow> bool" where
  "same_group a b = (confuseMap (p_class a) \<noteq> None \<and> confuseMap (p_class a) = confuseMap (p_class b))"

definition confusion_ok :: "pred \<Rightarrow> pred \<Rightarrow> bool" where
  "confusion_ok a b = (same_group a b \<longrightarrow> iou (p_bbox a) (p_bbox b) \<le> CONFUSION_THRESHOLD)"

definition emitted_for :: "pred \<Rightarrow> pred \<Rightarrow> bool" where
  "emitted_for c p = (c = p \<or> (\<exists>cl sc. c = p\<lparr>p_class := cl, p_score := sc\<rparr>))"

subsection \<open>More concrete inputs\<close>

text \<open>
  Calls at increasing times, the clock constant within a call; a cup and a bowl side by
  side and a person between them; a cup of score 0.5 and a bowl in the same place.
\<close>

definition tick :: "int \<Rightarrow> nat \<Rightarrow> int" where
  "tick t i = t"

definition frame_at :: "raw_pred list \<Rightarrow> int \<Rightarrow> frame" where
  "frame_at rawPreds t = (tick t, rawPreds, 640, 480)"

definition call_times :: "int list" where
  "call_times = [1000, 1040, 1080, 1120, 1160, 1200, 1240, 1280, 1320, 1360, 1400, 1440]"

definition cupP_det :: raw_pred where
  "cupP_det = \<lparr>r_class = ''cup'', r_bbox = (0, 0, 200, 160), r_score = 0.9\<rparr>"
definition bowlB_det :: raw_pred where
  "bowlB_det = \<lparr>r_class = ''bowl'', r_bbox = (120, 0, 200, 160), r_score = 0.8\<rparr>"
definition personQ_det :: raw_pred where
  "personQ_det = \<lparr>r_class = ''person'', r_bbox = (100, 0, 200, 160), r_score = 0.7\<rparr>"

definition cupP_pred :: pred where
  "cupP_pred = \<lparr>p_class = ''cup'', p_bbox = (0, 0, 200, 160), p_score = 0.9,
                p_origScore = 0.9, p_aspectScore = 1\<rparr>"
definition bowlB_pred :: pred where
  "bowlB_pred = \<lparr>p_class = ''bowl'', p_bbox = (120, 0, 200, 160), p_score = 0.8,
                 p_origScore = 0.8, p_aspectScore = 1\<rparr>"
definition personQ_pred :: pred where
  "personQ_pred = \<lparr>p_class = ''person'', p_bbox = (100, 0, 200, 160), p_score = 0.7,
                   p_origScore = 0.7, p_aspectScore = 1\<rparr>"
definition bowlQ_pred :: pred where
  "bowlQ_pred = \<lparr>p_class = ''bowl'', p_bbox = (100, 0, 200, 160), p_score = 0.77,
                 p_origScore = 0.7, p_aspectScore = 1\<rparr>"

definition two_cands :: "int \<Rightarrow> candidates" where
  "two_cands n =
     [((''cup'', 0, 0, 1000), \<lparr>cls = ''cup'', score = 0.9, frames = n, bbox = (0, 0, 200, 160)\<rparr>),
      ((''bowl'', 3, 0, 1000), \<lparr>cls = ''bowl'', score = 0.8, frames = n, bbox = (120, 0, 200, 160)\<rparr>)]"

definition cupH_det :: raw_pred where
  "cupH_det = \<lparr>r_class = ''cup'', r_bbox = (0, 0, 200, 160), r_score = 0.5\<rparr>"
definition bowlH_det :: "real \<Rightarrow> raw_pred" where
  "bowlH_det s = \<lparr>r_class = ''bowl'', r_bbox = (0, 0, 200, 160), r_score = s\<rparr>"
definition cupH_pred :: pred where
  "cupH_pred = \<lparr>p_class = ''cup'', p_bbox = (0, 0, 200, 160), p_score = 0.5,
                p_origScore = 0.5, p_aspectScore = 1\<rparr>"
definition bowlH_pred :: "real \<Rightarrow> pred" where
  "bowlH_pred s = \<lparr>p_class = ''bowl'', p_bbox = (0, 0, 200, 160), p_score = s,
                   p_origScore = s, p_aspectScore = 1\<rparr>"
definition cupH_cand :: "int \<Rightarrow> candidate" where
  "cupH_cand n = \<lparr>cls = ''cup'', score = 0.5, frames = n, bbox = (0, 0, 200, 160)\<rparr>"
definition locked_state :: loop_state where
  "locked_state = \<lparr>cands = [((''cup'', 0, 0, 1000), cupH_cand 12)], nowKeys = {}, confirmed = []\<rparr>"



text \<open>
  Eight calls and twice four calls; a dog whose box has width 0, with the candidate it
  gets; and two persons whose boxes overlap with IoU 1/3, with the one candidate that
  tracks both.
\<close>

definition eight_calls :: "int list" where
  "eight_calls = [1000, 1040, 1080, 1120, 1160, 1200, 1240, 1280]"

definition dog0_det :: raw_pred where
  "dog0_det = \<lparr>r_class = ''dog'', r_bbox = (100, 100, 0, 60), r_score = 0.9\<rparr>"
definition dog0_pred :: pred where
  "dog0_pred = \<lparr>p_class = ''dog'', p_bbox = (100, 100, 0, 60), p_score = 0.9,
                p_origScore = 0.9, p_aspectScore = 1\<rparr>"
definition dog0_cand :: candidate where
  "dog0_cand = \<lparr>cls = ''dog'', score = 0.9, frames = 1, bbox = (100, 100, 0, 60)\<rparr>"





section \<open>Properties\<close>

subsection \<open>Boxes, aspect hints and the pipeline\<close>

lemma iou_sym: "iou a b = iou b a"
  by (cases a; cases b) (simp add: Let_def max.commute min.commute add.commute)

lemma hints_ordered:
  "map_of ASPECT_HINTS c = Some hn \<Longrightarrow> 0 < hint_min hn \<and> hint_min hn \<le> hint_max hn \<and> 0 \<le> hint_weight hn"
  by (auto simp: ASPECT_HINTS_def split: if_splits)

lemma aspectScore_ge: "aspectScore c b \<ge> 0.3"
  by (cases b) (simp add: Let_def max_def split: option.splits)

lemma set_nms: "set (nms kept ps) \<subseteq> set kept \<union> set ps"
proof (induction ps arbitrary: kept)
  case Nil
  then show ?case by simp
next
  case (Cons p ps)
  show ?case using Cons.IH[of kept] Cons.IH[of "kept @ [p]"] by auto
qed

lemma set_resolve: "set (resolve resolved ps) \<subseteq> set resolved \<union> set ps"
proof (induction ps arbitrary: resolved)
  case Nil
  then show ?case by simp
next
  case (Cons p ps)
  have upd: "set (resolved[idx := p]) \<subseteq> insert p (set resolved)" for idx
    by (rule set_update_subset_insert)
  show ?case
    using Cons.IH[of "resolved @ [p]"] Cons.IH[of resolved] Cons.IH[of "resolved[idx := p]" for idx] upd
    by (auto split: option.splits if_splits) blast+
qed

lemma set_pipeline: "set (pipeline T rawPreds vw vh) \<subseteq> score_pred ` set rawPreds"
proof -
  have "set (pipeline T rawPreds vw vh) \<subseteq> set (sort_preds (map score_pred rawPreds))"
    unfolding pipeline_def Let_def
    using set_resolve[of "[]"] set_nms[of "[]"] by fastforce 
  then show ?thesis by (simp add: sort_preds_def)
qed

subsection \<open>One step of the tracker loop\<close>

lemma scan_keys:
  "scan p cs loc0 = (mk, ml) \<Longrightarrow>
     (\<forall>k. mk = Some k \<longrightarrow> k \<in> fst ` set cs) \<and> (\<forall>l. ml = Some l \<longrightarrow> ml = loc0 \<or> l \<in> fst ` set cs)"
  by (induction p cs loc0 rule: scan.induct) (auto split: if_splits)

lemma set_update_subset: "set (AList.update k v al) \<subseteq> insert (k, v) (set al)"
  by (induction al) auto

lemma class_lock_SomeD:
  assumes "class_lock p mk ml s = Some s'"
  obtains loc existing where
    "ml = Some loc" "mk = None" "map_of (cands s) loc = Some existing"
    "frames existing \<ge> CLASS_LOCK_FRAMES"
    "aspectScore (p_class p) (p_bbox p) * p_score p
       < aspectScore (cls existing) (p_bbox p) * score existing * 1.3"
    "s' = s\<lparr>cands := AList.update loc
                 (existing\<lparr>bbox := p_bbox p, score := score existing * 0.7 + p_origScore p * 0.3\<rparr>)
                 (cands s),
             nowKeys := insert loc (nowKeys s),
             confirmed := (if frames existing \<ge> CONFIRM_FRAMES
                then confirmed s @ [p\<lparr>p_class := cls existing,
                                      p_score := score existing * 0.7 + p_origScore p * 0.3\<rparr>]
                else confirmed s)\<rparr>"
proof -
  from assms obtain loc where ml: "ml = Some loc"
    by (cases ml) (simp_all add: class_lock_def)
  from assms ml have mk: "mk = None"
    by (cases mk) (simp_all add: class_lock_def)
  from assms ml mk obtain existing where ex: "map_of (cands s) loc = Some existing"
    by (cases "map_of (cands s) loc") (simp_all add: class_lock_def)
  from assms ml mk ex have fr: "frames existing \<ge> CLASS_LOCK_FRAMES"
    by (simp add: class_lock_def split: if_splits)
  from assms ml mk ex fr have fitc: "aspectScore (p_class p) (p_bbox p) * p_score p
       < aspectScore (cls existing) (p_bbox p) * score existing * 1.3"
    by (simp add: class_lock_def Let_def split: if_splits)
  from assms ml mk ex fr fitc have "s' = s\<lparr>cands := AList.update loc
                 (existing\<lparr>bbox := p_bbox p, score := score existing * 0.7 + p_origScore p * 0.3\<rparr>)
                 (cands s),
             nowKeys := insert loc (nowKeys s),
             confirmed := (if frames existing \<ge> CONFIRM_FRAMES
                then confirmed s @ [p\<lparr>p_class := cls existing,
                                      p_score := score existing * 0.7 + p_origScore p * 0.3\<rparr>]
                else confirmed s)\<rparr>"
    by (auto simp: class_lock_def Let_def)
  with ml mk ex fr fitc show thesis by (rule that)
qed

lemma track_one_cases [case_names update lock create]:
  assumes upd: "\<And>k c. map_of (cands s) k = Some c \<Longrightarrow>
      track_one now p s = push_confirmed p k
        (s\<lparr>nowKeys := insert k (nowKeys s),
           cands := AList.update k
             (c\<lparr>frames := frames c + 1, score := score c * 0.6 + p_score p * 0.4, bbox := p_bbox p\<rparr>)
             (cands s)\<rparr>) \<Longrightarrow> P"
    and lock: "\<And>loc existing. map_of (cands s) loc = Some existing \<Longrightarrow>
      track_one now p s =
        s\<lparr>cands := AList.update loc
              (existing\<lparr>bbox := p_bbox p, score := score existing * 0.7 + p_origScore p * 0.3\<rparr>)
              (cands s),
          nowKeys := insert loc (insert (fresh_key p now) (nowKeys s)),
          confirmed := (if frames existing \<ge> CONFIRM_FRAMES
             then confirmed s @ [p\<lparr>p_class := cls existing,
                                   p_score := score existing * 0.7 + p_origScore p * 0.3\<rparr>]
             else confirmed s)\<rparr> \<Longrightarrow> P"
    and create: "map_of (cands s) (fresh_key p now) = None \<Longrightarrow>
      track_one now p s = push_confirmed p (fresh_key p now)
        (s\<lparr>nowKeys := insert (fresh_key p now) (nowKeys s),
           cands := AList.update (fresh_key p now)
             \<lparr>cls = p_class p, score = p_score p, frames = 1, bbox = p_bbox p\<rparr>
             (cands s)\<rparr>) \<Longrightarrow> P"
  shows P
proof -
  obtain mk ml where sc: "scan p (cands s) None = (mk, ml)" by (cases "scan p (cands s) None")
  define rKey where "rKey = (case mk of Some k \<Rightarrow> k | None \<Rightarrow> fresh_key p now)"
  define s1 where "s1 = s\<lparr>nowKeys := insert rKey (nowKeys s)\<rparr>"
  show P
  proof (cases "map_of (cands s) rKey")
    case (Some c)
    then have "track_one now p s = push_confirmed p rKey
        (s\<lparr>nowKeys := insert rKey (nowKeys s),
           cands := AList.update rKey
             (c\<lparr>frames := frames c + 1, score := score c * 0.6 + p_score p * 0.4, bbox := p_bbox p\<rparr>)
             (cands s)\<rparr>)"
      by (simp add: track_one_def apply_match_def sc rKey_def Let_def)
    with Some show P by (rule upd)
  next
    case None
    with scan_keys[OF sc] have mk: "mk = None" and rk: "rKey = fresh_key p now"
      by (auto simp: rKey_def map_of_eq_None_iff split: option.splits)
    show P
    proof (cases "class_lock p mk ml s1")
      case NoLock: None
      have "track_one now p s = push_confirmed p (fresh_key p now)
        (s\<lparr>nowKeys := insert (fresh_key p now) (nowKeys s),
           cands := AList.update (fresh_key p now)
             \<lparr>cls = p_class p, score = p_score p, frames = 1, bbox = p_bbox p\<rparr>
             (cands s)\<rparr>)"
        using None NoLock by (simp add: track_one_def apply_match_def sc mk rk[symmetric] s1_def Let_def)
      with None rk show P by (simp add: create)
    next
      case (Some s2)
      have t: "track_one now p s = s2"
        using None Some by (simp add: track_one_def apply_match_def sc mk rk[symmetric] s1_def Let_def)
      from Some show P
      proof (rule class_lock_SomeD)
        fix loc existing
        assume "map_of (cands s1) loc = Some existing"
          and "s2 = s1\<lparr>cands := AList.update loc
                 (existing\<lparr>bbox := p_bbox p, score := score existing * 0.7 + p_origScore p * 0.3\<rparr>)
                 (cands s1),
             nowKeys := insert loc (nowKeys s1),
             confirmed := (if frames existing \<ge> CONFIRM_FRAMES
                then confirmed s1 @ [p\<lparr>p_class := cls existing,
                                      p_score := score existing * 0.7 + p_origScore p * 0.3\<rparr>]
                else confirmed s1)\<rparr>"
        then show P using t by (intro lock[of loc existing]) (simp_all add: s1_def rk)
      qed
    qed
  qed
qed

lemma push_confirmed_simps [simp]:
  "cands (push_confirmed p k s) = cands s"
  "nowKeys (push_confirmed p k s) = nowKeys s"
  by (simp_all add: push_confirmed_def split: option.splits)

text \<open>Every branch of the loop body writes exactly one entry of the map.\<close>

lemma track_one_summary:
  "\<exists>k v. cands (track_one now p s) = AList.update k v (cands s) \<and>
         k \<in> nowKeys (track_one now p s) \<and>
         nowKeys s \<subseteq> nowKeys (track_one now p s) \<and>
         (case map_of (cands s) k of
            None \<Rightarrow> frames v = 1 \<and> cls v = p_class p
          | Some c \<Rightarrow> cls v = cls c \<and> frames c \<le> frames v)"
proof (cases rule: track_one_cases[where s=s and p=p and now=now])
  case (update k c)
  then show ?thesis
    by (intro exI[of _ k] exI[of _ "c\<lparr>frames := frames c + 1, score := score c * 0.6 + p_score p * 0.4, bbox := p_bbox p\<rparr>"]) auto
next
  case (lock loc existing)
  then show ?thesis
    by (intro exI[of _ loc] exI[of _ "existing\<lparr>bbox := p_bbox p, score := score existing * 0.7 + p_origScore p * 0.3\<rparr>"]) auto
next
  case create
  then show ?thesis
    by (intro exI[of _ "fresh_key p now"] exI[of _ "\<lparr>cls = p_class p, score = p_score p, frames = 1, bbox = p_bbox p\<rparr>"]) auto
qed

subsection \<open>The loop, the decay pass and \<^verbatim>\<open>reset\<close>\<close>

lemma track_one_distinct:
  "distinct (map fst (cands s)) \<Longrightarrow> distinct (map fst (cands (track_one now p s)))"
  using track_one_summary[of now p s] by (auto simp: distinct_update)

lemma track_one_frames:
  assumes "\<forall>(k, c) \<in> set (cands s). 1 \<le> frames c"
  shows "\<forall>(k, c) \<in> set (cands (track_one now p s)). 1 \<le> frames c"
proof -
  obtain k v where kv: "cands (track_one now p s) = AList.update k v (cands s)"
    and v: "case map_of (cands s) k of None \<Rightarrow> frames v = 1 \<and> cls v = p_class p
            | Some c \<Rightarrow> cls v = cls c \<and> frames c \<le> frames v"
    using track_one_summary[of now p s] by blast
  have "1 \<le> frames v"
  proof (cases "map_of (cands s) k")
    case None
    with v show ?thesis by simp
  next
    case (Some c)
    then have "(k, c) \<in> set (cands s)" by (rule map_of_SomeD)
    with assms have "1 \<le> frames c" by auto
    with v Some show ?thesis by simp
  qed
  with assms show ?thesis
    unfolding kv using set_update_subset[of k v "cands s"] by auto
qed

lemma track_one_untouched:
  "k \<notin> nowKeys (track_one now p s) \<Longrightarrow> map_of (cands (track_one now p s)) k = map_of (cands s) k"
  using track_one_summary[of now p s] by (auto simp: update_conv')

lemma track_one_nowKeys: "nowKeys s \<subseteq> nowKeys (track_one now p s)"
  using track_one_summary[of now p s] by blast

lemma track_one_cls:
  assumes "map_of (cands s) k = Some c"
  shows "\<exists>c'. map_of (cands (track_one now p s)) k = Some c' \<and> cls c' = cls c"
  using track_one_summary[of now p s] assms by (auto simp: update_conv')

lemma track_one_new:
  assumes "map_of (cands s) k = None" "map_of (cands (track_one now p s)) k = Some c'"
  shows "frames c' = 1 \<and> cls c' = p_class p"
  using track_one_summary[of now p s] assms by (auto simp: update_conv' split: if_splits)

lemma track_distinct:
  "distinct (map fst (cands s)) \<Longrightarrow> distinct (map fst (cands (track clock i ps s)))"
  by (induction ps arbitrary: i s) (simp_all add: track_one_distinct)

lemma track_frames:
  "\<forall>(k, c) \<in> set (cands s). 1 \<le> frames c \<Longrightarrow>
   \<forall>(k, c) \<in> set (cands (track clock i ps s)). 1 \<le> frames c"
proof (induction ps arbitrary: i s)
  case Nil
  then show ?case by simp
next
  case (Cons p ps)
  from Cons.IH[OF track_one_frames[OF Cons.prems]] show ?case by simp
qed

lemma track_nowKeys: "nowKeys s \<subseteq> nowKeys (track clock i ps s)"
proof (induction ps arbitrary: i s)
  case Nil
  then show ?case by simp
next
  case (Cons p ps)
  show ?case
    using Cons.IH[where s="track_one (clock i) p s" and i="Suc i"]
      track_one_nowKeys[where s=s and now="clock i" and p=p]
    by auto
qed

lemma track_untouched:
  "k \<notin> nowKeys (track clock i ps s) \<Longrightarrow> map_of (cands (track clock i ps s)) k = map_of (cands s) k"
proof (induction ps arbitrary: i s)
  case Nil
  then show ?case by simp
next
  case (Cons p ps)
  from Cons.prems have a: "k \<notin> nowKeys (track clock (Suc i) ps (track_one (clock i) p s))" by simp
  with track_nowKeys[where s="track_one (clock i) p s" and clock=clock and i="Suc i" and ps=ps]
  have "k \<notin> nowKeys (track_one (clock i) p s)" by auto
  with Cons.IH[OF a] show ?case by (simp add: track_one_untouched)
qed

lemma track_cls:
  "map_of (cands s) k = Some c \<Longrightarrow>
   \<exists>c'. map_of (cands (track clock i ps s)) k = Some c' \<and> cls c' = cls c"
proof (induction ps arbitrary: i s c)
  case Nil
  then show ?case by simp
next
  case (Cons p ps)
  from track_one_cls[OF Cons.prems] obtain c1
    where "map_of (cands (track_one (clock i) p s)) k = Some c1" "cls c1 = cls c" by blast
  with Cons.IH[where s="track_one (clock i) p s" and c=c1 and i="Suc i"] show ?case by auto
qed

lemma decay_set:
  "(k, c') \<in> set (decay seen al) \<Longrightarrow>
   \<exists>c. (k, c) \<in> set al \<and> cls c' = cls c \<and>
       (if k \<in> seen then c' = c else c' = c\<lparr>frames := frames c - DECAY_RATE\<rparr> \<and> 0 < frames c')"
proof (induction al)
  case Nil
  then show ?case by simp
next
  case (Cons a rest)
  obtain k0 c0 where a: "a = (k0, c0)" by (cases a)
  show ?case
  proof (cases "(k, c') \<in> set (decay seen rest)")
    case True
    from Cons.IH[OF True] obtain c where "(k, c) \<in> set rest" "cls c' = cls c"
      "if k \<in> seen then c' = c else c' = c\<lparr>frames := frames c - DECAY_RATE\<rparr> \<and> 0 < frames c'"
      by blast
    then show ?thesis by (intro exI[of _ c]) simp
  next
    case False
    with Cons.prems have "k = k0" and
      "if k \<in> seen then c' = c0 else c' = c0\<lparr>frames := frames c0 - DECAY_RATE\<rparr> \<and> 0 < frames c'"
      by (auto simp: a Let_def split: if_splits)
    then show ?thesis by (intro exI[of _ c0]) (auto simp: a split: if_splits)
  qed
qed

lemma decay_keys: "fst ` set (decay seen al) \<subseteq> fst ` set al"
  using decay_set by force

lemma decay_distinct: "distinct (map fst al) \<Longrightarrow> distinct (map fst (decay seen al))"
proof (induction seen al rule: decay.induct)
  case (1 seen)
  then show ?case by simp
next
  case (2 seen k c rest)
  then show ?case using decay_keys[of seen rest] by (auto simp: Let_def)
qed

lemma decay_map_of:
  "distinct (map fst al) \<Longrightarrow>
   map_of (decay seen al) k =
     (case map_of al k of None \<Rightarrow> None
      | Some c \<Rightarrow> if k \<in> seen then Some c
                  else if frames c - DECAY_RATE \<le> 0 then None
                  else Some (c\<lparr>frames := frames c - DECAY_RATE\<rparr>))"
proof (induction seen al rule: decay.induct)
  case (1 seen)
  then show ?case by simp
next
  case (2 seen k' c rest)
  have "map_of (decay seen rest) k' = None"
    using 2(4) decay_keys[of seen rest] by (auto simp: map_of_eq_None_iff)
  with 2 show ?case by (auto simp: Let_def)
qed

lemma filter_distinct:
  "distinct (map fst st) \<Longrightarrow>
   distinct (map fst (snd (filter_detections T clock st rawPreds vw vh)))"
  by (simp add: filter_detections_def Let_def tracked_def decay_distinct track_distinct)

lemma delete_all_keys:
  "fst ` set al \<subseteq> set ks \<Longrightarrow> fold AList.delete ks al = []"
proof (induction ks arbitrary: al)
  case Nil
  then show ?case by simp
next
  case (Cons k ks)
  have "fst ` set (AList.delete k al) \<subseteq> set ks"
    using Cons.prems by (auto simp: AList.delete_eq)
  from Cons.IH[OF this] show ?case by simp
qed

lemma reset_empty: "reset st = []"
  unfolding reset_def by (rule delete_all_keys) simp

text \<open>The keys of a reachable map are distinct, as the property names of an object are.\<close>

lemma reachable_distinct: "reachable T st \<Longrightarrow> distinct (map fst st)"
  by (induction rule: reachable.induct) (simp_all add: filter_distinct reset_empty)

lemma filter_frames:
  assumes "\<forall>(k, c) \<in> set st. 1 \<le> frames c"
  shows "\<forall>(k, c) \<in> set (snd (filter_detections T clock st rawPreds vw vh)). 1 \<le> frames c"
proof -
  let ?s = "tracked clock st (pipeline T rawPreds vw vh)"
  have a: "\<forall>(k, c) \<in> set (cands ?s). 1 \<le> frames c"
    unfolding tracked_def using assms by (intro track_frames) simp
  show ?thesis
  proof (clarsimp simp: filter_detections_def Let_def)
    fix k c' assume "(k, c') \<in> set (decay (nowKeys ?s) (cands ?s))"
    from decay_set[OF this] a show "1 \<le> frames c'" by (auto split: if_splits)
  qed
qed

lemma filter_unseen:
  assumes "distinct (map fst st)" "k \<notin> seen_keys T clock st rawPreds vw vh"
  shows "map_of (snd (filter_detections T clock st rawPreds vw vh)) k =
     (case map_of st k of None \<Rightarrow> None
      | Some c \<Rightarrow> if frames c - DECAY_RATE \<le> 0 then None
                  else Some (c\<lparr>frames := frames c - DECAY_RATE\<rparr>))"
proof -
  let ?s = "tracked clock st (pipeline T rawPreds vw vh)"
  have k: "k \<notin> nowKeys ?s" using assms(2) by (simp add: seen_keys_def)
  have d: "distinct (map fst (cands ?s))"
    unfolding tracked_def using assms(1) by (intro track_distinct) simp
  have "map_of (cands ?s) k = map_of st k"
    using k unfolding tracked_def by (subst track_untouched) simp_all
  then show ?thesis
    using k by (simp add: filter_detections_def Let_def decay_map_of[OF d] split: option.splits)
qed

lemma filter_cls:
  assumes "distinct (map fst st)" "map_of st k = Some c"
    "map_of (snd (filter_detections T clock st rawPreds vw vh)) k = Some c'"
  shows "cls c' = cls c"
proof -
  let ?s = "tracked clock st (pipeline T rawPreds vw vh)"
  have d: "distinct (map fst (cands ?s))"
    unfolding tracked_def using assms(1) by (intro track_distinct) simp
  obtain c1 where c1: "map_of (cands ?s) k = Some c1" "cls c1 = cls c"
    using track_cls[where s="\<lparr>cands = st, nowKeys = {}, confirmed = []\<rparr>" and k=k and c=c
        and clock=clock and i=0] assms(2)
    by (auto simp: tracked_def)
  from assms(3) have "map_of (decay (nowKeys ?s) (cands ?s)) k = Some c'"
    by (simp add: filter_detections_def Let_def)
  with c1 show ?thesis
    by (auto simp: decay_map_of[OF d] split: if_splits)
qed

subsection \<open>One detection fed on every call\<close>

lemma pipeline_single:
  assumes "validateSize T (score_pred r) (vw * vh)" "0.45 \<le> p_score (score_pred r)"
  shows "pipeline T [r] vw vh = [score_pred r]"
  using assms
  by (simp add: pipeline_def Let_def sort_preds_def dominated_nms_def split: option.splits)

lemma first_call:
  assumes "pipeline T rawPreds vw vh = [p]"
  shows "filter_detections T clock [] rawPreds vw vh =
           ([], [(fresh_key p (clock 0), tracked_cand p 1)])"
  using assms
  by (simp add: filter_detections_def tracked_def track_one_def apply_match_def class_lock_def
      push_confirmed_def tracked_cand_def CONFIRM_FRAMES_def Let_def)

lemma next_call:
  assumes "pipeline T rawPreds vw vh = [p]" "p_bbox p = (x, y, w, h)" "0 < w" "0 < h"
  shows "filter_detections T clock [(k, tracked_cand p n)] rawPreds vw vh =
           (if CONFIRM_FRAMES \<le> n + 1 then [p] else [], [(k, tracked_cand p (n + 1))])"
  using assms
  by (simp add: filter_detections_def tracked_def track_one_def apply_match_def
      push_confirmed_def tracked_cand_def Let_def)

lemma feed_matched:
  assumes "pipeline T [r] vw vh = [p]" "p_bbox p = (x, y, w, h)" "0 < w" "0 < h"
  shows "feed T [(k, tracked_cand p n)] (map (\<lambda>clock. (clock, [r], vw, vh)) clocks) =
           (map (\<lambda>i. if CONFIRM_FRAMES \<le> n + int i + 1 then [p] else []) [0..<length clocks],
            [(k, tracked_cand p (n + int (length clocks)))])"
proof (induction clocks arbitrary: n)
  case Nil
  then show ?case by simp
next
  case (Cons clock clocks)
  have step: "filter_detections T clock [(k, tracked_cand p n)] [r] vw vh =
      (if CONFIRM_FRAMES \<le> n + 1 then [p] else [], [(k, tracked_cand p (n + 1))])"
    by (rule next_call[OF assms])
  have ih: "feed T [(k, tracked_cand p (n + 1))] (map (\<lambda>clock. (clock, [r], vw, vh)) clocks) =
      (map (\<lambda>i. if CONFIRM_FRAMES \<le> (n + 1) + int i + 1 then [p] else []) [0..<length clocks],
       [(k, tracked_cand p ((n + 1) + int (length clocks)))])"
    by (rule Cons.IH)
  have a: "(n + 1) + int (length clocks) = n + int (length (clock # clocks))" by simp
  have b: "map (\<lambda>i. if CONFIRM_FRAMES \<le> n + int i + 1 then [p] else []) [0..<length (clock # clocks)]
      = (if CONFIRM_FRAMES \<le> n + 1 then [p] else [])
        # map (\<lambda>i. if CONFIRM_FRAMES \<le> (n + 1) + int i + 1 then [p] else []) [0..<length clocks]"
    by (simp add: map_upt_Suc add.assoc add.left_commute del: upt_Suc)
  show ?case unfolding b a[symmetric] by (simp add: step ih del: upt_Suc)
qed

lemma feed_single:
  assumes "pipeline T [r] vw vh = [p]" "p_bbox p = (x, y, w, h)" "0 < w" "0 < h"
  shows "fst (feed T [] (map (\<lambda>clock. (clock, [r], vw, vh)) clocks)) =
           map (\<lambda>i. if CONFIRM_FRAMES \<le> int i + 1 then [p] else []) [0..<length clocks]"
proof (cases clocks)
  case Nil
  then show ?thesis by simp
next
  case (Cons clock rest)
  have b: "map (\<lambda>i. if CONFIRM_FRAMES \<le> int i + 1 then [p] else []) [0..<length (clock # rest)]
      = [] # map (\<lambda>i. if CONFIRM_FRAMES \<le> 1 + int i + 1 then [p] else []) [0..<length rest]"
    by (simp add: map_upt_Suc CONFIRM_FRAMES_def add.assoc add.left_commute del: upt_Suc)
  have first: "filter_detections T clock [] [r] vw vh = ([], [(fresh_key p (clock 0), tracked_cand p 1)])"
    by (rule first_call[OF assms(1)])
  have rest: "feed T [(fresh_key p (clock 0), tracked_cand p 1)] (map (\<lambda>clock. (clock, [r], vw, vh)) rest) =
           (map (\<lambda>i. if CONFIRM_FRAMES \<le> 1 + int i + 1 then [p] else []) [0..<length rest],
            [(fresh_key p (clock 0), tracked_cand p (1 + int (length rest)))])"
    by (rule feed_matched[OF assms])
  show ?thesis unfolding Cons b by (simp add: first rest del: upt_Suc)
qed

subsection \<open>NMS and confusion resolution\<close>

lemma nms_sorted_wrt:
  "sorted_wrt Q (kept @ ps) \<Longrightarrow> sorted_wrt Q (nms kept ps)"
proof (induction ps arbitrary: kept)
  case Nil
  then show ?case by simp
next
  case (Cons p ps)
  from Cons.prems have "sorted_wrt Q (kept @ ps)" "sorted_wrt Q ((kept @ [p]) @ ps)"
    by (auto simp: sorted_wrt_append)
  then show ?case using Cons.IH[of kept] Cons.IH[of "kept @ [p]"] by simp
qed

lemma nms_pairwise:
  "sorted_wrt nms_ok kept \<Longrightarrow> sorted_wrt nms_ok (nms kept ps)"
proof (induction ps arbitrary: kept)
  case Nil
  then show ?case by simp
next
  case (Cons p ps)
  show ?case
  proof (cases "dominated_nms p kept")
    case True
    with Cons show ?thesis by simp
  next
    case False
    then have "\<forall>k \<in> set kept. nms_ok k p"
      by (auto simp: dominated_nms_def list_ex_iff nms_ok_def iou_sym[of "p_bbox p"] not_less)
    with Cons.prems have "sorted_wrt nms_ok (kept @ [p])"
      by (simp add: sorted_wrt_append)
    from Cons.IH[OF this] False show ?thesis by simp
  qed
qed

lemma sorted_wrt_list_update:
  assumes "\<And>a b. R a b \<Longrightarrow> R b a" "sorted_wrt R xs" "\<forall>x \<in> set xs. R x p"
  shows "sorted_wrt R (xs[idx := p])"
  using assms(2,3)
proof (induction xs arbitrary: idx)
  case Nil
  then show ?case by simp
next
  case (Cons x xs)
  show ?case
  proof (cases idx)
    case 0
    have "R p y" if "y \<in> set xs" for y
      by (rule assms(1)) (use that Cons.prems(2) in simp)
    with Cons.prems 0 show ?thesis by simp
  next
    case (Suc n)
    have "set (xs[n := p]) \<subseteq> insert p (set xs)" by (rule set_update_subset_insert)
    with Cons.prems have "\<forall>y \<in> set (xs[n := p]). R x y" by auto
    with Cons.IH[of n] Cons.prems Suc show ?thesis by simp
  qed
qed

lemma resolve_pairwise:
  assumes "\<And>a b. R a b \<Longrightarrow> R b a"
  shows "sorted_wrt R (resolved @ ps) \<Longrightarrow> sorted_wrt R (resolve resolved ps)"
proof (induction ps arbitrary: resolved)
  case Nil
  then show ?case by simp
next
  case (Cons p ps)
  from Cons.prems have a: "sorted_wrt R ((resolved @ [p]) @ ps)" by simp
  from Cons.prems have b: "sorted_wrt R (resolved @ ps)" by (auto simp: sorted_wrt_append)
  have c: "sorted_wrt R (resolved[idx := p] @ ps)" for idx
  proof -
    from Cons.prems have "sorted_wrt R resolved" "\<forall>x \<in> set resolved. R x p"
      "\<forall>y \<in> set ps. R p y" "\<forall>x \<in> set resolved. \<forall>y \<in> set ps. R x y" "sorted_wrt R ps"
      by (auto simp: sorted_wrt_append)
    moreover from this have "sorted_wrt R (resolved[idx := p])"
      by (intro sorted_wrt_list_update[OF assms])
    moreover have "set (resolved[idx := p]) \<subseteq> insert p (set resolved)"
      by (rule set_update_subset_insert)
    ultimately show ?thesis by (auto simp: sorted_wrt_append)
  qed
  show ?case
  proof (cases "confuseMap (p_class p)")
    case None
    with Cons.IH[OF a] show ?thesis by simp
  next
    case (Some grp)
    show ?thesis
    proof (cases "find_conflict p grp resolved 0")
      case None
      with Some Cons.IH[OF a] show ?thesis by simp
    next
      case (Some idx)
      show ?thesis
      proof (cases "fit p > fit (resolved ! idx)")
        case True
        with \<open>confuseMap (p_class p) = Some grp\<close> Some Cons.IH[OF c[of idx]] show ?thesis by simp
      next
        case False
        with \<open>confuseMap (p_class p) = Some grp\<close> Some Cons.IH[OF b] show ?thesis by simp
      qed
    qed
  qed
qed

lemma pipeline_pairwise: "sorted_wrt nms_ok (pipeline T rawPreds vw vh)"
proof -
  let ?preds = "filter (\<lambda>p. 0.45 \<le> p_score p)
     (filter (\<lambda>p. validateSize T p (vw * vh)) (sort_preds (map score_pred rawPreds)))"
  have sym: "nms_ok a b \<Longrightarrow> nms_ok b a" for a b
    by (simp add: nms_ok_def iou_sym)
  have "sorted_wrt nms_ok (nms [] ?preds)"
    by (rule nms_pairwise) simp
  then have "sorted_wrt nms_ok ([] @ nms [] ?preds)"
    by simp
  from resolve_pairwise[of nms_ok, OF sym this] show ?thesis
    by (simp add: pipeline_def Let_def)
qed

lemma sorted_wrt_subseq:
  "subseq xs ys \<Longrightarrow> sorted_wrt P ys \<Longrightarrow> sorted_wrt P xs"
proof (induction rule: list_emb.induct)
  case (list_emb_Nil ys)
  then show ?case by simp
next
  case (list_emb_Cons xs ys y)
  then show ?case by simp
next
  case (list_emb_Cons2 x y xs ys)
  have "set xs \<subseteq> set ys"
    using list_emb_set[OF list_emb_Cons2.hyps(2)] by blast
  with list_emb_Cons2 show ?case by auto
qed

lemma fit_score_pred: "fit (score_pred r) = p_score (score_pred r)"
  using aspectScore_ge[of "r_class r" "r_bbox r"]
  by (simp add: fit_def score_pred_def Let_def)

lemma find_conflict_None:
  "find_conflict p grp rs i = None \<Longrightarrow>
   \<forall>r \<in> set rs. \<not> (confuseMap (p_class r) = Some grp \<and> CONFUSION_THRESHOLD < iou (p_bbox p) (p_bbox r))"
  by (induction rs arbitrary: i) (auto split: if_splits)

lemma find_conflict_Some:
  "find_conflict p grp rs i = Some idx \<Longrightarrow> i \<le> idx \<and> idx - i < length rs"
proof (induction rs arbitrary: i)
  case Nil
  then show ?case by simp
next
  case (Cons r rs)
  show ?case
  proof (cases "confuseMap (p_class r) = Some grp \<and> CONFUSION_THRESHOLD < iou (p_bbox p) (p_bbox r)")
    case True
    with Cons.prems show ?thesis by simp
  next
    case False
    with Cons.prems have "find_conflict p grp rs (Suc i) = Some idx" by auto
    from Cons.IH[OF this] show ?thesis by auto
  qed
qed

text \<open>
  On a list in descending order of fit the replacement branch of step 6 is never taken:
  the entry already resolved has at least the fit of the later detection.
\<close>

lemma resolve_confusion:
  assumes "sorted_wrt confusion_ok resolved"
    and "\<forall>r \<in> set resolved. \<forall>p \<in> set ps. fit p \<le> fit r"
    and "sorted_wrt (\<lambda>a b. fit b \<le> fit a) ps"
  shows "sorted_wrt confusion_ok (resolve resolved ps)"
  using assms
proof (induction ps arbitrary: resolved)
  case Nil
  then show ?case by simp
next
  case (Cons p ps)
  have ord: "\<forall>r \<in> set (resolved @ [p]). \<forall>q \<in> set ps. fit q \<le> fit r"
    using Cons.prems(2,3) by auto
  have ord': "\<forall>r \<in> set resolved. \<forall>q \<in> set ps. fit q \<le> fit r"
    using Cons.prems(2) by auto
  have srt: "sorted_wrt (\<lambda>a b. fit b \<le> fit a) ps"
    using Cons.prems(3) by simp
  show ?case
  proof (cases "confuseMap (p_class p)")
    case None
    then have "\<forall>r \<in> set resolved. confusion_ok r p"
      by (auto simp: confusion_ok_def same_group_def)
    with Cons.prems(1) have "sorted_wrt confusion_ok (resolved @ [p])"
      by (simp add: sorted_wrt_append)
    from Cons.IH[OF this ord srt] None show ?thesis by simp
  next
    case (Some grp)
    show ?thesis
    proof (cases "find_conflict p grp resolved 0")
      case None
      from find_conflict_None[OF None] Some have "\<forall>r \<in> set resolved. confusion_ok r p"
        by (auto simp: confusion_ok_def same_group_def iou_sym[of "p_bbox p"] not_less)
      with Cons.prems(1) have "sorted_wrt confusion_ok (resolved @ [p])"
        by (simp add: sorted_wrt_append)
      from Cons.IH[OF this ord srt] None Some show ?thesis by simp
    next
      case (Some idx)
      from find_conflict_Some[OF Some] have "resolved ! idx \<in> set resolved" by simp
      with Cons.prems(2) have "\<not> fit (resolved ! idx) < fit p" by (auto simp: not_less)
      with Cons.IH[OF Cons.prems(1) ord' srt] Some \<open>confuseMap (p_class p) = Some grp\<close>
      show ?thesis by simp
    qed
  qed
qed

lemma pipeline_confusion: "sorted_wrt confusion_ok (pipeline T rawPreds vw vh)"
proof -
  let ?sorted = "sort_preds (map score_pred rawPreds)"
  let ?preds = "filter (\<lambda>p. 0.45 \<le> p_score p) (filter (\<lambda>p. validateSize T p (vw * vh)) ?sorted)"
  let ?kept = "nms [] ?preds"
  have "sorted (map (\<lambda>p. - p_score p) ?sorted)"
    unfolding sort_preds_def by (rule sorted_sort_key)
  then have "sorted_wrt (\<lambda>a b. p_score b \<le> p_score a) ?sorted"
    by (simp add: sorted_map)
  then have "sorted_wrt (\<lambda>a b. p_score b \<le> p_score a) ?preds"
    by (intro sorted_wrt_filter)
  then have "sorted_wrt (\<lambda>a b. p_score b \<le> p_score a) ([] @ ?preds)"
    by simp
  then have k: "sorted_wrt (\<lambda>a b. p_score b \<le> p_score a) ?kept"
    by (rule nms_sorted_wrt)
  have "set ?kept \<subseteq> score_pred ` set rawPreds"
    using set_nms[of "[]" ?preds] by (auto simp: sort_preds_def)
  then have "\<forall>p \<in> set ?kept. fit p = p_score p"
    using fit_score_pred by auto
  with k have "sorted_wrt (\<lambda>a b. fit b \<le> fit a) ?kept"
    by (intro sorted_wrt_mono_rel[OF _ k]) simp
  then have "sorted_wrt confusion_ok (resolve [] ?kept)"
    by (intro resolve_confusion) simp_all
  then show ?thesis by (simp add: pipeline_def Let_def)
qed

subsection \<open>What the loop confirms\<close>

lemma push_confirmed_cases:
  assumes "confirmed s' = confirmed s"
  shows "confirmed (push_confirmed p k s') = confirmed s \<or>
         (\<exists>c. confirmed (push_confirmed p k s') = confirmed s @ [c] \<and> emitted_for c p)"
  using assms by (simp add: push_confirmed_def emitted_for_def split: option.splits)

lemma track_one_confirmed:
  "confirmed (track_one now p s) = confirmed s \<or>
   (\<exists>c. confirmed (track_one now p s) = confirmed s @ [c] \<and> emitted_for c p)"
proof (cases rule: track_one_cases[where s=s and p=p and now=now])
  case (update k c)
  show ?thesis unfolding update(2) by (rule push_confirmed_cases) simp
next
  case (lock loc existing)
  then show ?thesis by (auto simp: emitted_for_def)
next
  case create
  show ?thesis unfolding create(2) by (rule push_confirmed_cases) simp
qed

lemma track_confirmed:
  "\<exists>qs cs. confirmed (track clock i ps s) = confirmed s @ cs \<and> subseq qs ps \<and>
            list_all2 emitted_for cs qs"
proof (induction ps arbitrary: i s)
  case Nil
  show ?case by simp
next
  case (Cons p ps)
  let ?s1 = "track_one (clock i) p s"
  from Cons.IH[of "Suc i" ?s1] obtain qs cs
    where ih: "confirmed (track clock (Suc i) ps ?s1) = confirmed ?s1 @ cs"
      "subseq qs ps" "list_all2 emitted_for cs qs"
    by blast
  from track_one_confirmed[of "clock i" p s] show ?case
  proof
    assume "confirmed ?s1 = confirmed s"
    with ih show ?thesis
      by - (rule exI[of _ qs], rule exI[of _ cs], simp add: list_emb_Cons)
  next
    assume "\<exists>c. confirmed ?s1 = confirmed s @ [c] \<and> emitted_for c p"
    then obtain c where "confirmed ?s1 = confirmed s @ [c]" "emitted_for c p" by blast
    with ih show ?thesis
      by - (rule exI[of _ "p # qs"], rule exI[of _ "c # cs"], simp)
  qed
qed

subsection \<open>The search for a matching candidate\<close>

lemma scan_no_exact:
  assumes "\<forall>(k, c) \<in> set cs. \<not> (cls c = p_class p \<and> 0.25 < iou (bbox c) (p_bbox p))"
  shows "scan p cs loc0 =
           (None, case loc0 of Some l \<Rightarrow> Some l
                  | None \<Rightarrow> map_option fst (find (\<lambda>(k, c). 0.4 < iou (bbox c) (p_bbox p)) cs))"
  using assms
  by (induction p cs loc0 rule: scan.induct) (auto split: option.splits)

subsection \<open>Evaluation of the concrete inputs\<close>

lemma confuseMap_cup: "confuseMap ''cup'' = Some [''cup'', ''bowl'', ''vase'', ''bottle'']"
  by (simp add: confuseMap_def CONFUSE_GROUPS_def)
lemma confuseMap_bowl: "confuseMap ''bowl'' = Some [''cup'', ''bowl'', ''vase'', ''bottle'']"
  by (simp add: confuseMap_def CONFUSE_GROUPS_def)
lemma confuseMap_person: "confuseMap ''person'' = None"
  by (simp add: confuseMap_def CONFUSE_GROUPS_def)

lemmas eval_pipeline = pipeline_def sort_preds_def score_pred_def ASPECT_HINTS_def
  validateSize_def example_tables_def dominated_nms_def NMS_THRESHOLD_def
  confuseMap_cup confuseMap_bowl confuseMap_person CONFUSION_THRESHOLD_def Let_def

lemmas eval_tracker = filter_detections_def tracked_def track_one_def apply_match_def class_lock_def
  push_confirmed_def fresh_key_def round_def CONFIRM_FRAMES_def CLASS_LOCK_FRAMES_def
  DECAY_RATE_def ASPECT_HINTS_def tick_def Let_def

lemma pipeline_cup_bowl:
  "pipeline example_tables [cupP_det, bowlB_det] 640 480 = [cupP_pred, bowlB_pred]"
  by (simp add: eval_pipeline cupP_det_def bowlB_det_def cupP_pred_def bowlB_pred_def)

lemma pipeline_cup_person:
  "pipeline example_tables [cupP_det, personQ_det] 640 480 = [cupP_pred, personQ_pred]"
  by (simp add: eval_pipeline cupP_det_def personQ_det_def cupP_pred_def personQ_pred_def)

lemma two_first:
  "filter_detections example_tables (tick 1000) [] [cupP_det, bowlB_det] 640 480 = ([], two_cands 1)"
  by (simp add: pipeline_cup_bowl eval_tracker cupP_pred_def bowlB_pred_def two_cands_def)

lemma two_next:
  "filter_detections example_tables (tick t) (two_cands n) [cupP_det, bowlB_det] 640 480 =
     (if 8 \<le> n + 1 then [cupP_pred, bowlB_pred] else [], two_cands (n + 1))"
  by (simp add: pipeline_cup_bowl eval_tracker cupP_pred_def bowlB_pred_def two_cands_def)

lemma two_feed:
  "snd (feed example_tables [] (map (frame_at [cupP_det, bowlB_det]) call_times)) = two_cands 12"
  by (simp add: call_times_def frame_at_def two_first two_next)

lemma lock_call:
  "filter_detections example_tables (tick 1480) (two_cands 12) [cupP_det, personQ_det] 640 480 =
     ([cupP_pred, bowlQ_pred],
      [((''cup'', 0, 0, 1000), \<lparr>cls = ''cup'', score = 0.9, frames = 13, bbox = (0, 0, 200, 160)\<rparr>),
       ((''bowl'', 3, 0, 1000), \<lparr>cls = ''bowl'', score = 0.77, frames = 12, bbox = (100, 0, 200, 160)\<rparr>)])"
  by (simp add: pipeline_cup_person eval_tracker cupP_pred_def personQ_pred_def bowlQ_pred_def two_cands_def)

lemma pipeline_cupH: "pipeline example_tables [cupH_det] 640 480 = [cupH_pred]"
  by (simp add: eval_pipeline cupH_det_def cupH_pred_def)

lemma pipeline_bowlH: "0.45 \<le> s \<Longrightarrow> pipeline example_tables [bowlH_det s] 640 480 = [bowlH_pred s]"
  by (simp add: eval_pipeline bowlH_det_def bowlH_pred_def)

lemma cupH_first:
  "filter_detections example_tables (tick 1000) [] [cupH_det] 640 480 = ([], [((''cup'', 0, 0, 1000), cupH_cand 1)])"
  by (simp add: pipeline_cupH eval_tracker cupH_pred_def cupH_cand_def)

lemma cupH_next:
  "filter_detections example_tables (tick t) [((''cup'', 0, 0, 1000), cupH_cand n)] [cupH_det] 640 480 =
     (if 8 \<le> n + 1 then [cupH_pred] else [], [((''cup'', 0, 0, 1000), cupH_cand (n + 1))])"
  by (simp add: pipeline_cupH eval_tracker cupH_pred_def cupH_cand_def)

lemma cupH_feed:
  "snd (feed example_tables [] (map (frame_at [cupH_det]) call_times)) = cands locked_state"
  by (simp add: call_times_def frame_at_def cupH_first cupH_next locked_state_def)

lemma boundary_call:
  "filter_detections example_tables (tick 1480) (cands locked_state) [bowlH_det 0.65] 640 480 =
     ([], [((''cup'', 0, 0, 1000), cupH_cand 10),
           ((''bowl'', 0, 0, 1480), \<lparr>cls = ''bowl'', score = 0.65, frames = 1, bbox = (0, 0, 200, 160)\<rparr>)])"
  by (simp add: pipeline_bowlH eval_tracker bowlH_pred_def cupH_cand_def locked_state_def)

lemma score_pred_cup: "score_pred cup_det = cup_pred"
  by (simp add: score_pred_def cup_det_def cup_pred_def ASPECT_HINTS_def)

lemma validateSize_cup: "validateSize example_tables (score_pred cup_det) (640 * 480)"
  by (simp add: score_pred_cup cup_pred_def validateSize_def example_tables_def)

lemma pipeline_cup: "pipeline example_tables [cup_det] 640 480 = [cup_pred]"
  using pipeline_single[OF validateSize_cup] by (simp add: score_pred_cup) (simp add: cup_pred_def)

lemma pipeline_Nil: "pipeline T [] vw vh = []"
  by (simp add: pipeline_def sort_preds_def)

lemma fresh_key_cup: "fresh_key cup_pred 0 = cup_key"
  by (simp add: fresh_key_def cup_pred_def cup_key_def round_def)

lemma tracked_cand_cup: "tracked_cand cup_pred n = cup_cand n"
  by (simp add: tracked_cand_def cup_pred_def cup_cand_def)

lemma cup_call_first: "cup_call [] = ([], [(cup_key, cup_cand 1)])"
  unfolding cup_call_def
  using first_call[OF pipeline_cup, of "\<lambda>i. 0"] by (simp add: fresh_key_cup tracked_cand_cup)

lemma cup_call_next:
  "cup_call [(cup_key, cup_cand n)] = (if 8 \<le> n + 1 then [cup_pred] else [], [(cup_key, cup_cand (n + 1))])"
  unfolding cup_call_def
  using next_call[OF pipeline_cup, of 100 100 40 60 "\<lambda>i. 0" cup_key n]
  by (simp add: tracked_cand_cup CONFIRM_FRAMES_def) (simp add: cup_pred_def)

lemma seen_keys_Nil: "seen_keys T clock st [] vw vh = {}"
  by (simp add: seen_keys_def pipeline_Nil tracked_def)

subsection \<open>Detections with and without a box\<close>


lemma with_bbox_present [simp]: "with_bbox (present p) (p_bbox p) = p"
  by (simp add: with_bbox_def present_def)

lemma present_simps [simp]:
  "jp_class (present p) = p_class p" "jp_bbox (present p) = Some (p_bbox p)"
  "jp_score (present p) = p_score p" "jp_origScore (present p) = p_origScore p"
  "jp_aspectScore (present p) = p_aspectScore p"
  by (simp_all add: present_def)























subsection \<open>Frames of at most one detection\<close>












subsection \<open>A box of width 0, and two boxes of one class\<close>

lemma confuseMap_dog: "confuseMap ''dog'' = None"
  by (simp add: confuseMap_def CONFUSE_GROUPS_def)

lemma pipeline_dog0: "pipeline example_tables [dog0_det] 640 480 = [dog0_pred]"
  by (simp add: eval_pipeline confuseMap_dog dog0_det_def dog0_pred_def)

lemma score_pred_dog0: "score_pred dog0_det = dog0_pred"
  by (simp add: score_pred_def ASPECT_HINTS_def dog0_det_def dog0_pred_def)

lemma dog0_first:
  "filter_detections example_tables (tick t) [] [dog0_det] 640 480 =
     ([], [((''dog'', 3, 3, t), dog0_cand)])"
  by (simp add: pipeline_dog0 eval_tracker dog0_pred_def dog0_cand_def)

lemma dog0_next:
  "t \<noteq> t0 \<Longrightarrow>
   filter_detections example_tables (tick t) [((''dog'', 3, 3, t0), dog0_cand)] [dog0_det] 640 480 =
     ([], [((''dog'', 3, 3, t), dog0_cand)])"
  by (simp add: pipeline_dog0 eval_tracker dog0_pred_def dog0_cand_def)

lemma dog0_feed:
  "feed example_tables [] (map (frame_at [dog0_det]) eight_calls) =
     ([[], [], [], [], [], [], [], []], [((''dog'', 3, 3, 1280), dog0_cand)])"
  by (simp add: eight_calls_def frame_at_def dog0_first dog0_next)






section \<open>The claims\<close>

subsection \<open>C1: class-lock hysteresis\<close>

text \<open>
  C1, as the code has it. The resolved detection \<open>p\<close> has no exact match (no candidate of
  its class with IoU above 0.25); the first candidate of the map, in iteration order,
  with IoU above 0.4 is \<open>existing\<close> under key \<open>loc\<close>, and its streak is at least
  \<open>CLASS_LOCK_FRAMES\<close>; the fresh key of \<open>p\<close> is not in the map; and
  \<open>newFit < existingFit * 1.3\<close>, strictly. Then the locked candidate wins: its box becomes
  the box of \<open>p\<close>, its score \<open>0.7 * old + 0.3 * origScore\<close>, it is marked seen, the map
  gets no new key, and \<open>p\<close> is confirmed with the class of the locked candidate and the new
  score.
\<close>

theorem class_lock_retention:
  assumes "\<forall>(k, c) \<in> set (cands s). \<not> (cls c = p_class p \<and> 0.25 < iou (bbox c) (p_bbox p))"
    and "find (\<lambda>(k, c). 0.4 < iou (bbox c) (p_bbox p)) (cands s) = Some (loc, existing)"
    and "distinct (map fst (cands s))"
    and "CLASS_LOCK_FRAMES \<le> frames existing"
    and "fresh_key p now \<notin> fst ` set (cands s)"
    and "aspectScore (p_class p) (p_bbox p) * p_score p
           < aspectScore (cls existing) (p_bbox p) * score existing * 1.3"
  shows "track_one now p s =
           s\<lparr>cands := AList.update loc
                 (existing\<lparr>bbox := p_bbox p,
                           score := score existing * 0.7 + p_origScore p * 0.3\<rparr>) (cands s),
             nowKeys := insert loc (insert (fresh_key p now) (nowKeys s)),
             confirmed := confirmed s @
                 [p\<lparr>p_class := cls existing,
                    p_score := score existing * 0.7 + p_origScore p * 0.3\<rparr>]\<rparr>"
proof -
  have sc: "scan p (cands s) None = (None, Some loc)"
    using scan_no_exact[OF assms(1), of None] assms(2) by simp
  from assms(2) have "(loc, existing) \<in> set (cands s)"
    by (auto simp: find_Some_iff in_set_conv_nth)
  with assms(3) have ex: "map_of (cands s) loc = Some existing"
    by (rule map_of_is_SomeI)
  have fr: "map_of (cands s) (fresh_key p now) = None"
    using assms(5) by (simp add: map_of_eq_None_iff)
  have cf: "CONFIRM_FRAMES \<le> frames existing"
    using assms(4) by (simp add: CONFIRM_FRAMES_def CLASS_LOCK_FRAMES_def)
  show ?thesis
    using assms(4,6) cf
    by (simp add: track_one_def apply_match_def sc fr ex class_lock_def Let_def)
qed

theorem class_lock_retention_witness:
  "track_one 1480 (bowlH_pred 0.6) locked_state =
     \<lparr>cands = [((''cup'', 0, 0, 1000),
                \<lparr>cls = ''cup'', score = 0.53, frames = 12, bbox = (0, 0, 200, 160)\<rparr>)],
      nowKeys = {(''cup'', 0, 0, 1000), (''bowl'', 0, 0, 1480)},
      confirmed = [\<lparr>p_class = ''cup'', p_bbox = (0, 0, 200, 160), p_score = 0.53,
                     p_origScore = 0.6, p_aspectScore = 1\<rparr>]\<rparr>"
proof -
  let ?p = "bowlH_pred 0.6"
  have a1: "\<forall>(k, c) \<in> set (cands locked_state).
      \<not> (cls c = p_class ?p \<and> 0.25 < iou (bbox c) (p_bbox ?p))"
    by (simp add: locked_state_def cupH_cand_def bowlH_pred_def)
  have a2: "find (\<lambda>(k, c). 0.4 < iou (bbox c) (p_bbox ?p)) (cands locked_state)
      = Some ((''cup'', 0, 0, 1000), cupH_cand 12)"
    by (simp add: locked_state_def cupH_cand_def bowlH_pred_def)
  have a3: "distinct (map fst (cands locked_state))"
    by (simp add: locked_state_def)
  have a4: "CLASS_LOCK_FRAMES \<le> frames (cupH_cand 12)"
    by (simp add: CLASS_LOCK_FRAMES_def cupH_cand_def)
  have a5: "fresh_key ?p 1480 \<notin> fst ` set (cands locked_state)"
    by (simp add: locked_state_def fresh_key_def bowlH_pred_def)
  have a6: "aspectScore (p_class ?p) (p_bbox ?p) * p_score ?p
      < aspectScore (cls (cupH_cand 12)) (p_bbox ?p) * score (cupH_cand 12) * 1.3"
    by (simp add: cupH_cand_def bowlH_pred_def ASPECT_HINTS_def)
  show ?thesis
    using class_lock_retention[OF a1 a2 a3 a4 a5 a6]
    by (simp add: locked_state_def cupH_cand_def bowlH_pred_def fresh_key_def round_def insert_commute)
qed

text \<open>
  C1 as stated, with \<open>newFit \<le> existingFit * 1.3\<close>, fails where the two are equal. A cup
  of score 0.5 is fed on twelve calls, which locks it with streak 12 and score 0.5; then
  a bowl of score 0.65 comes in the same box, so that \<open>newFit = 0.65 = 0.5 * 1.3\<close>. The call
  confirms nothing, the cup candidate keeps its box and score and decays to streak 10,
  and a bowl candidate is created.
\<close>

theorem class_lock_boundary_counterexample:
  "snd (feed example_tables [] (map (frame_at [cupH_det]) call_times)) = cands locked_state \<and>
   cands locked_state = [((''cup'', 0, 0, 1000), cupH_cand 12)] \<and>
   CLASS_LOCK_FRAMES \<le> frames (cupH_cand 12) \<and>
   cls (cupH_cand 12) \<noteq> p_class (bowlH_pred 0.65) \<and>
   pipeline example_tables [bowlH_det 0.65] 640 480 = [bowlH_pred 0.65] \<and>
   aspectScore (p_class (bowlH_pred 0.65)) (p_bbox (bowlH_pred 0.65)) * p_score (bowlH_pred 0.65)
     \<le> aspectScore (cls (cupH_cand 12)) (p_bbox (bowlH_pred 0.65)) * score (cupH_cand 12) * 1.3 \<and>
   0.4 < iou (bbox (cupH_cand 12)) (p_bbox (bowlH_pred 0.65)) \<and>
   filter_detections example_tables (tick 1480) (cands locked_state) [bowlH_det 0.65] 640 480 =
     ([], [((''cup'', 0, 0, 1000), cupH_cand 10),
           ((''bowl'', 0, 0, 1480),
            \<lparr>cls = ''bowl'', score = 0.65, frames = 1, bbox = (0, 0, 200, 160)\<rparr>)])"
  using cupH_feed boundary_call pipeline_bowlH[of "0.65"]
  by (simp add: locked_state_def cupH_cand_def bowlH_pred_def ASPECT_HINTS_def CLASS_LOCK_FRAMES_def)

subsection \<open>C2: malformed input items\<close>




subsection \<open>C3: the confusion invariant\<close>

text \<open>
  C3, as the code has it. Any two detections of the resolved list of a frame whose classes
  share a confusion group have IoU at most \<open>CONFUSION_THRESHOLD\<close>. The confirmed
  detections are, in order, resolved detections of that frame (\<open>qs\<close>), each one pushed
  unchanged or with class and score overwritten by the class lock; so any two confirmed
  detections that were pushed unchanged and whose classes share a group have IoU at most
  \<open>CONFUSION_THRESHOLD\<close>. A class that the class lock substitutes is not compared with the
  other detections.
\<close>

theorem confusion_invariant_resolved:
  "(\<forall>i j. i < j \<and> j < length (pipeline T rawPreds videoWidth videoHeight) \<and>
      same_group (pipeline T rawPreds videoWidth videoHeight ! i)
                 (pipeline T rawPreds videoWidth videoHeight ! j) \<longrightarrow>
      iou (p_bbox (pipeline T rawPreds videoWidth videoHeight ! i))
          (p_bbox (pipeline T rawPreds videoWidth videoHeight ! j)) \<le> CONFUSION_THRESHOLD) \<and>
   (\<exists>qs. subseq qs (pipeline T rawPreds videoWidth videoHeight) \<and>
      list_all2 emitted_for (fst (filter_detections T clock st rawPreds videoWidth videoHeight)) qs \<and>
      (\<forall>i j. i < j \<and> j < length qs \<and>
         fst (filter_detections T clock st rawPreds videoWidth videoHeight) ! i = qs ! i \<and>
         fst (filter_detections T clock st rawPreds videoWidth videoHeight) ! j = qs ! j \<and>
         same_group (qs ! i) (qs ! j) \<longrightarrow>
         iou (p_bbox (fst (filter_detections T clock st rawPreds videoWidth videoHeight) ! i))
             (p_bbox (fst (filter_detections T clock st rawPreds videoWidth videoHeight) ! j))
           \<le> CONFUSION_THRESHOLD))"
proof -
  let ?res = "pipeline T rawPreds videoWidth videoHeight"
  let ?out = "fst (filter_detections T clock st rawPreds videoWidth videoHeight)"
  have inv: "sorted_wrt confusion_ok ?res" by (rule pipeline_confusion)
  have use: "iou (p_bbox (xs ! i)) (p_bbox (xs ! j)) \<le> CONFUSION_THRESHOLD"
    if "sorted_wrt confusion_ok xs" "i < j" "j < length xs" "same_group (xs ! i) (xs ! j)"
    for xs i j
    using sorted_wrt_nth_less[OF that(1,2,3)] that(4) by (simp add: confusion_ok_def)
  obtain qs cs where t: "confirmed (tracked clock st ?res) = [] @ cs" "subseq qs ?res"
      "list_all2 emitted_for cs qs"
    using track_confirmed[of clock 0 ?res "\<lparr>cands = st, nowKeys = {}, confirmed = []\<rparr>"]
    by (auto simp: tracked_def)
  then have out: "?out = cs" by (simp add: filter_detections_def Let_def)
  have qinv: "sorted_wrt confusion_ok qs" by (rule sorted_wrt_subseq[OF t(2) inv])
  have "\<forall>i j. i < j \<and> j < length qs \<and> ?out ! i = qs ! i \<and> ?out ! j = qs ! j \<and>
         same_group (qs ! i) (qs ! j) \<longrightarrow>
         iou (p_bbox (?out ! i)) (p_bbox (?out ! j)) \<le> CONFUSION_THRESHOLD"
    using use[OF qinv] by auto
  with t(2,3) out have "\<exists>qs. subseq qs ?res \<and> list_all2 emitted_for ?out qs \<and>
      (\<forall>i j. i < j \<and> j < length qs \<and> ?out ! i = qs ! i \<and> ?out ! j = qs ! j \<and>
         same_group (qs ! i) (qs ! j) \<longrightarrow>
         iou (p_bbox (?out ! i)) (p_bbox (?out ! j)) \<le> CONFUSION_THRESHOLD)"
    by (intro exI[of _ qs]) simp
  moreover have "\<forall>i j. i < j \<and> j < length ?res \<and> same_group (?res ! i) (?res ! j) \<longrightarrow>
      iou (p_bbox (?res ! i)) (p_bbox (?res ! j)) \<le> CONFUSION_THRESHOLD"
    using use[OF inv] by auto
  ultimately show ?thesis by blast
qed

theorem confusion_invariant_resolved_witness:
  "pipeline example_tables [cupP_det, bowlB_det] 640 480 = [cupP_pred, bowlB_pred] \<and>
   fst (filter_detections example_tables (tick 1480) (two_cands 12) [cupP_det, bowlB_det] 640 480)
     = [cupP_pred, bowlB_pred] \<and>
   same_group cupP_pred bowlB_pred \<and>
   iou (p_bbox cupP_pred) (p_bbox bowlB_pred) \<le> CONFUSION_THRESHOLD"
proof -
  have g: "same_group cupP_pred bowlB_pred"
    by (simp add: same_group_def cupP_pred_def bowlB_pred_def confuseMap_cup confuseMap_bowl)
  from confusion_invariant_resolved[of example_tables "[cupP_det, bowlB_det]" 640 480 "tick 1480" "two_cands 12",
      THEN conjunct1, rule_format, of 0 1] g
  have "iou (p_bbox cupP_pred) (p_bbox bowlB_pred) \<le> CONFUSION_THRESHOLD"
    by (simp add: pipeline_cup_bowl)
  with g show ?thesis by (simp add: pipeline_cup_bowl two_next)
qed

text \<open>
  C3 as stated fails for a class that the class lock substitutes. A cup and a bowl side
  by side (IoU 0.25) are fed on twelve calls, which locks both with streak 12. Then the
  cup comes with a person whose box overlaps the cup with IoU 1/3 and the bowl candidate
  with IoU above 0.4: the person is confirmed with the class of the locked bowl. The call
  returns a cup and a bowl, of one confusion group, with IoU 1/3, above 0.3.
\<close>

theorem confusion_invariant_counterexample:
  "snd (feed example_tables [] (map (frame_at [cupP_det, bowlB_det]) call_times)) = two_cands 12 \<and>
   fst (filter_detections example_tables (tick 1480) (two_cands 12) [cupP_det, personQ_det] 640 480)
     = [cupP_pred, bowlQ_pred] \<and>
   same_group cupP_pred bowlQ_pred \<and>
   iou (p_bbox cupP_pred) (p_bbox bowlQ_pred) = 1 / 3 \<and>
   CONFUSION_THRESHOLD < iou (p_bbox cupP_pred) (p_bbox bowlQ_pred)"
  by (simp add: two_feed lock_call)
     (simp add: same_group_def cupP_pred_def bowlQ_pred_def confuseMap_cup confuseMap_bowl
        CONFUSION_THRESHOLD_def)

subsection \<open>C4: confirmation delay\<close>

text \<open>
  C4, as the code has it. Starting from the empty candidate map, the same single
  detection is fed on every call; it passes the size validation and the score floor, and
  its box has positive width and height. Then call number \<open>i + 1\<close> returns the empty list
  while \<open>i + 1 < CONFIRM_FRAMES\<close> and returns exactly that (scored) detection from call
  \<open>CONFIRM_FRAMES\<close> on: calls 1 to 7 return nothing, call 8 is the first to confirm. The
  clock of each call is arbitrary.
\<close>

theorem confirmation_delay:
  assumes "validateSize T (score_pred r) (videoWidth * videoHeight)"
      and "0.45 \<le> p_score (score_pred r)"
      and "r_bbox r = (x, y, w, h)" and "0 < w" and "0 < h"
      and "i < length clocks"
  shows "fst (feed T [] (map (\<lambda>clock. (clock, [r], videoWidth, videoHeight)) clocks)) ! i =
           (if int (i + 1) < CONFIRM_FRAMES then [] else [score_pred r])"
proof -
  have b: "p_bbox (score_pred r) = (x, y, w, h)"
    using assms(3) by (simp add: score_pred_def Let_def)
  from feed_single[OF pipeline_single[OF assms(1,2)] b assms(4,5)] assms(6)
  show ?thesis by (auto simp del: upt_Suc)
qed

theorem confirmation_delay_witness:
  "fst (feed example_tables [] (map (\<lambda>clock. (clock, [cup_det], 640, 480)) (replicate 8 (\<lambda>i. 0)))) ! 6 = [] \<and>
   fst (feed example_tables [] (map (\<lambda>clock. (clock, [cup_det], 640, 480)) (replicate 8 (\<lambda>i. 0)))) ! 7 =
     [\<lparr>p_class = ''cup'', p_bbox = (100, 100, 40, 60), p_score = 0.6,
       p_origScore = 0.6, p_aspectScore = 1\<rparr>]"
proof -
  have s: "0.45 \<le> p_score (score_pred cup_det)"
    by (simp add: score_pred_cup cup_pred_def)
  have b: "r_bbox cup_det = (100, 100, 40, 60)"
    by (simp add: cup_det_def)
  show ?thesis
    using confirmation_delay[OF validateSize_cup s b, of 6 "replicate 8 (\<lambda>i. 0)"]
          confirmation_delay[OF validateSize_cup s b, of 7 "replicate 8 (\<lambda>i. 0)"]
    by (simp add: score_pred_cup cup_pred_def CONFIRM_FRAMES_def)
qed

text \<open>
  C4 as stated, for every detection that passes the pipeline, fails for a box without
  area. A dog with a box of width 0 and score 0.9 passes every stage of the pipeline
  (its class has no size category and no aspect hint). \<^verbatim>\<open>iou\<close> of its box with itself is 0,
  so on each call it matches no candidate, gets a new key with the new time, and the
  candidate of the call before decays away: eight calls confirm nothing.
\<close>

theorem confirmation_delay_counterexample:
  "pipeline example_tables [dog0_det] 640 480 = [score_pred dog0_det] \<and>
   validateSize example_tables (score_pred dog0_det) (640 * 480) \<and>
   0.45 \<le> p_score (score_pred dog0_det) \<and>
   iou (r_bbox dog0_det) (r_bbox dog0_det) = 0 \<and>
   feed example_tables [] (map (frame_at [dog0_det]) eight_calls) =
     ([[], [], [], [], [], [], [], []], [((''dog'', 3, 3, 1280), dog0_cand)])"
  using pipeline_dog0 dog0_feed
  by (simp add: score_pred_dog0) (simp add: dog0_pred_def dog0_det_def validateSize_def example_tables_def)

subsection \<open>C5: the NMS invariant\<close>

text \<open>
  C5. For every input list, every table and all frame dimensions, any two detections at
  different positions of the resolved list (after NMS and confusion resolution, and also
  where confusion resolution overwrites an entry in place) have IoU at most
  \<open>NMS_THRESHOLD\<close>.
\<close>

theorem nms_invariant:
  "\<forall>i < length (pipeline T rawPreds videoWidth videoHeight).
   \<forall>j < length (pipeline T rawPreds videoWidth videoHeight). i \<noteq> j \<longrightarrow>
     iou (p_bbox (pipeline T rawPreds videoWidth videoHeight ! i))
         (p_bbox (pipeline T rawPreds videoWidth videoHeight ! j)) \<le> NMS_THRESHOLD"
proof (intro allI impI)
  fix i j
  let ?res = "pipeline T rawPreds videoWidth videoHeight"
  assume len: "i < length ?res" "j < length ?res" and ne: "i \<noteq> j"
  have s: "sorted_wrt nms_ok ?res" by (rule pipeline_pairwise)
  from ne consider "i < j" | "j < i" by linarith
  then show "iou (p_bbox (?res ! i)) (p_bbox (?res ! j)) \<le> NMS_THRESHOLD"
  proof cases
    case 1
    from sorted_wrt_nth_less[OF s 1 len(2)] show ?thesis by (simp add: nms_ok_def)
  next
    case 2
    from sorted_wrt_nth_less[OF s 2 len(1)] show ?thesis by (simp add: nms_ok_def iou_sym)
  qed
qed

theorem nms_invariant_witness:
  "pipeline example_tables [cupP_det, bowlB_det] 640 480 = [cupP_pred, bowlB_pred] \<and>
   iou (p_bbox cupP_pred) (p_bbox bowlB_pred) = 1 / 4 \<and>
   iou (p_bbox cupP_pred) (p_bbox bowlB_pred) \<le> NMS_THRESHOLD"
  using nms_invariant[of example_tables "[cupP_det, bowlB_det]" 640 480, rule_format, of 0 1]
  by (simp add: pipeline_cup_bowl) (simp add: cupP_pred_def bowlB_pred_def)

subsection \<open>C6: decay and eviction\<close>

text \<open>
  C6. A candidate with streak 8 whose key is in \<^verbatim>\<open>nowKeys\<close> in none of the next four
  calls (no resolved detection matches it) loses \<open>DECAY_RATE\<close> per call: it is in the map
  with streak 6, 4 and 2 after the first, second and third call, and it is no longer in
  the map after the fourth. Nothing else of the candidate changes. (The keys of the map are
  distinct, as they are in every reachable state.)
\<close>

theorem decay_eviction:
  assumes "distinct (map fst st0)" and "map_of st0 k = Some c" and "frames c = 8"
    and "st1 = snd (filter_detections T clock1 st0 raws1 vw1 vh1)"
    and "k \<notin> seen_keys T clock1 st0 raws1 vw1 vh1"
    and "st2 = snd (filter_detections T clock2 st1 raws2 vw2 vh2)"
    and "k \<notin> seen_keys T clock2 st1 raws2 vw2 vh2"
    and "st3 = snd (filter_detections T clock3 st2 raws3 vw3 vh3)"
    and "k \<notin> seen_keys T clock3 st2 raws3 vw3 vh3"
    and "st4 = snd (filter_detections T clock4 st3 raws4 vw4 vh4)"
    and "k \<notin> seen_keys T clock4 st3 raws4 vw4 vh4"
  shows "map_of st1 k = Some (c\<lparr>frames := 8 - DECAY_RATE\<rparr>) \<and>
         map_of st2 k = Some (c\<lparr>frames := 8 - 2 * DECAY_RATE\<rparr>) \<and>
         map_of st3 k = Some (c\<lparr>frames := 2\<rparr>) \<and>
         map_of st4 k = None"
proof -
  have d1: "distinct (map fst st1)" unfolding assms(4) by (rule filter_distinct[OF assms(1)])
  have d2: "distinct (map fst st2)" unfolding assms(6) by (rule filter_distinct[OF d1])
  have d3: "distinct (map fst st3)" unfolding assms(8) by (rule filter_distinct[OF d2])
  have m1: "map_of st1 k = Some (c\<lparr>frames := 6\<rparr>)"
    unfolding assms(4) using filter_unseen[OF assms(1) assms(5)] assms(2,3)
    by (simp add: DECAY_RATE_def)
  have m2: "map_of st2 k = Some (c\<lparr>frames := 4\<rparr>)"
    unfolding assms(6) using filter_unseen[OF d1 assms(7)] m1
    by (simp add: DECAY_RATE_def)
  have m3: "map_of st3 k = Some (c\<lparr>frames := 2\<rparr>)"
    unfolding assms(8) using filter_unseen[OF d2 assms(9)] m2
    by (simp add: DECAY_RATE_def)
  have m4: "map_of st4 k = None"
    unfolding assms(10) using filter_unseen[OF d3 assms(11)] m3
    by (simp add: DECAY_RATE_def)
  from m1 m2 m3 m4 show ?thesis by (simp add: DECAY_RATE_def)
qed

theorem decay_eviction_witness:
  "map_of (idle_call [(cup_key, cup_cand 8)]) cup_key = Some (cup_cand 6) \<and>
   map_of (idle_call (idle_call [(cup_key, cup_cand 8)])) cup_key = Some (cup_cand 4) \<and>
   map_of (idle_call (idle_call (idle_call [(cup_key, cup_cand 8)]))) cup_key = Some (cup_cand 2) \<and>
   map_of (idle_call (idle_call (idle_call (idle_call [(cup_key, cup_cand 8)])))) cup_key = None"
  using decay_eviction[of "[(cup_key, cup_cand 8)]" cup_key "cup_cand 8"
      "idle_call [(cup_key, cup_cand 8)]" example_tables "\<lambda>i. 0" "[]" 640 480
      "idle_call (idle_call [(cup_key, cup_cand 8)])" "\<lambda>i. 0" "[]" 640 480
      "idle_call (idle_call (idle_call [(cup_key, cup_cand 8)]))" "\<lambda>i. 0" "[]" 640 480
      "idle_call (idle_call (idle_call (idle_call [(cup_key, cup_cand 8)])))" "\<lambda>i. 0" "[]" 640 480]
  by (simp add: seen_keys_Nil idle_call_def[symmetric] DECAY_RATE_def) (simp add: cup_cand_def)

subsection \<open>C7: aspect scoring\<close>

text \<open>
  C7. \<^verbatim>\<open>aspectScore\<close>: a class without an aspect hint gets the multiplier 1; with a hint,
  width 0 gives 0.5, an aspect \<open>h / w\<close> inside \<open>[min, max]\<close> gives 1, and outside it the
  multiplier is \<open>max 0.3 (1 - distance * weight * 3)\<close>, where the distance is
  \<open>(min - aspect) / min\<close> below the window and \<open>(aspect - max) / max\<close> above it. Every
  detection that leaves the pipeline is a raw detection with its score multiplied by
  that multiplier, the raw score and the multiplier kept beside it.
\<close>

theorem aspect_scoring:
  "(map_of ASPECT_HINTS c = None \<longrightarrow> aspectScore c (x, y, w, h) = 1) \<and>
   (\<forall>hn. map_of ASPECT_HINTS c = Some hn \<longrightarrow>
      (w = 0 \<longrightarrow> aspectScore c (x, y, w, h) = 0.5) \<and>
      (w \<noteq> 0 \<and> hint_min hn \<le> h / w \<and> h / w \<le> hint_max hn \<longrightarrow> aspectScore c (x, y, w, h) = 1) \<and>
      (w \<noteq> 0 \<and> h / w < hint_min hn \<longrightarrow>
         aspectScore c (x, y, w, h) = max 0.3 (1 - (hint_min hn - h / w) / hint_min hn * hint_weight hn * 3)) \<and>
      (w \<noteq> 0 \<and> hint_max hn < h / w \<longrightarrow>
         aspectScore c (x, y, w, h) = max 0.3 (1 - (h / w - hint_max hn) / hint_max hn * hint_weight hn * 3))) \<and>
   (\<forall>p \<in> set (pipeline T rawPreds videoWidth videoHeight). \<exists>r \<in> set rawPreds.
      p_class p = r_class r \<and> p_bbox p = r_bbox r \<and>
      p_aspectScore p = aspectScore (r_class r) (r_bbox r) \<and>
      p_origScore p = r_score r \<and>
      p_score p = r_score r * aspectScore (r_class r) (r_bbox r))"
proof (intro conjI allI impI ballI)
  fix p assume "p \<in> set (pipeline T rawPreds videoWidth videoHeight)"
  then obtain r where "r \<in> set rawPreds" "p = score_pred r"
    using set_pipeline by blast
  then show "\<exists>r \<in> set rawPreds.
      p_class p = r_class r \<and> p_bbox p = r_bbox r \<and>
      p_aspectScore p = aspectScore (r_class r) (r_bbox r) \<and>
      p_origScore p = r_score r \<and>
      p_score p = r_score r * aspectScore (r_class r) (r_bbox r)"
    by (auto simp: score_pred_def Let_def)
next
  fix hn assume "map_of ASPECT_HINTS c = Some hn" "w \<noteq> 0 \<and> hint_max hn < h / w"
  then show "aspectScore c (x, y, w, h) = max 0.3 (1 - (h / w - hint_max hn) / hint_max hn * hint_weight hn * 3)"
    using hints_ordered[of c hn] by (simp add: Let_def)
qed (simp_all add: Let_def)

theorem aspect_scoring_witness:
  "aspectScore ''person'' (102, 101, 39, 58) = 1 \<and>
   aspectScore ''bowl'' (102, 101, 0, 58) = 0.5 \<and>
   aspectScore ''cup'' (100, 100, 40, 60) = 1 \<and>
   aspectScore ''bowl'' (102, 101, 39, 58) = 356 / 585 \<and>
   aspectScore ''bottle'' (0, 0, 100, 90) = 0.625 \<and>
   pipeline example_tables [cup_det] 640 480 =
     [\<lparr>p_class = ''cup'', p_bbox = (100, 100, 40, 60), p_score = 0.6 * 1,
       p_origScore = 0.6, p_aspectScore = 1\<rparr>]"
proof -
  have person: "map_of ASPECT_HINTS ''person'' = None"
    and bowl: "map_of ASPECT_HINTS ''bowl'' = Some \<lparr>hint_min = 0.3, hint_max = 0.9, hint_weight = 0.20\<rparr>"
    and cup: "map_of ASPECT_HINTS ''cup'' = Some \<lparr>hint_min = 0.6, hint_max = 1.6, hint_weight = 0.20\<rparr>"
    and bottle: "map_of ASPECT_HINTS ''bottle'' = Some \<lparr>hint_min = 1.8, hint_max = 5.0, hint_weight = 0.25\<rparr>"
    by (simp_all add: ASPECT_HINTS_def)
  show ?thesis
    using aspect_scoring[of "''person''" 102 101 39 58 example_tables "[cup_det]" 640 480]
      aspect_scoring[of "''bowl''" 102 101 0 58 example_tables "[cup_det]" 640 480]
      aspect_scoring[of "''cup''" 100 100 40 60 example_tables "[cup_det]" 640 480]
      aspect_scoring[of "''bowl''" 102 101 39 58 example_tables "[cup_det]" 640 480]
      aspect_scoring[of "''bottle''" 0 0 100 90 example_tables "[cup_det]" 640 480]
    by (simp add: person bowl cup bottle pipeline_cup cup_pred_def)
qed

subsection \<open>C8: reset\<close>




subsection \<open>C9: a live candidate has streak at least 1\<close>

text \<open>
  C9. In every state the tracker can reach from the empty map by calls of \<^verbatim>\<open>filter\<close> and
  \<^verbatim>\<open>reset\<close>, every candidate in the map has \<open>frames\<close> at least 1.
\<close>

theorem live_candidate_streak:
  assumes "reachable T st"
  shows "\<forall>(k, c) \<in> set st. 1 \<le> frames c"
  using assms
proof (induction rule: reachable.induct)
  case reach_init
  show ?case by simp
next
  case (reach_filter st clock rawPreds videoWidth videoHeight)
  then show ?case by (intro filter_frames)
next
  case (reach_reset st)
  show ?case by (simp add: reset_empty)
qed

theorem live_candidate_streak_witness:
  "reachable example_tables (snd (cup_call [])) \<and>
   snd (cup_call []) = [(cup_key, cup_cand 1)] \<and>
   1 \<le> frames (cup_cand 1)"
proof -
  have r: "reachable example_tables (snd (cup_call []))"
    unfolding cup_call_def by (intro reach_filter reach_init)
  from live_candidate_streak[OF r] r show ?thesis
    by (simp add: cup_call_first)
qed

subsection \<open>C10: the class of a tracked identity\<close>

text \<open>
  C10. A call of \<^verbatim>\<open>filter\<close> never changes \<open>cls\<close> of a candidate: a key that is in the map
  before and after the call has the same class after it; within the call no step of the
  loop removes a key or changes its class, and a key that a step adds to the map holds a
  new candidate with streak 1 and the class of the detection. Only eviction (the decay
  pass, or \<^verbatim>\<open>reset\<close>) followed by a new candidate gives a region another class.
\<close>

theorem class_immutability:
  assumes "distinct (map fst st)" and "map_of st k = Some c"
  shows "(\<forall>c'. map_of (snd (filter_detections T clock st rawPreds videoWidth videoHeight)) k = Some c'
            \<longrightarrow> cls c' = cls c) \<and>
         (\<forall>s. map_of (cands s) k = Some c \<longrightarrow>
            (\<exists>c'. map_of (cands (track_one now p s)) k = Some c' \<and> cls c' = cls c)) \<and>
         (\<forall>s k' c'. map_of (cands s) k' = None \<and> map_of (cands (track_one now p s)) k' = Some c'
            \<longrightarrow> frames c' = 1 \<and> cls c' = p_class p)"
  using filter_cls[OF assms] track_one_cls track_one_new by blast

theorem class_immutability_witness:
  "map_of [(cup_key, cup_cand 3)] cup_key = Some (cup_cand 3) \<and>
   map_of (snd (cup_call [(cup_key, cup_cand 3)])) cup_key = Some (cup_cand 4) \<and>
   cls (cup_cand 4) = cls (cup_cand 3) \<and>
   map_of (cands (track_one 0 cup_pred \<lparr>cands = [], nowKeys = {}, confirmed = []\<rparr>)) cup_key
     = Some (cup_cand 1) \<and>
   frames (cup_cand 1) = 1"
proof -
  let ?s0 = "\<lparr>cands = [], nowKeys = {}, confirmed = []\<rparr>"
  have d: "distinct (map fst [(cup_key, cup_cand 3)])" by simp
  have m: "map_of [(cup_key, cup_cand 3)] cup_key = Some (cup_cand 3)" by simp
  note ci = class_immutability[OF d m, where T=example_tables and clock="\<lambda>i. 0"
      and rawPreds="[cup_det]" and videoWidth=640 and videoHeight=480 and now=0 and p=cup_pred]
  have after: "map_of (snd (cup_call [(cup_key, cup_cand 3)])) cup_key = Some (cup_cand 4)"
    by (simp add: cup_call_next)
  from ci after have same: "cls (cup_cand 4) = cls (cup_cand 3)"
    by (simp add: cup_call_def)
  have made: "map_of (cands (track_one 0 cup_pred ?s0)) cup_key = Some (cup_cand 1)"
    by (simp add: track_one_def apply_match_def class_lock_def push_confirmed_def fresh_key_cup CONFIRM_FRAMES_def)
       (simp add: cup_cand_def cup_pred_def)
  have "map_of (cands ?s0) cup_key = None" by simp
  with ci made have "frames (cup_cand 1) = 1" by blast
  with m after same made show ?thesis by simp
qed

end
